theory Spec2Isabelle
  imports Main "HOL-Library.Sublist"
begin

section \<open>Values read from the service and bound to the database\<close>

text \<open>
  What \<^verbatim>\<open>response.json()\<close> returns: the Python value of a JSON document. An object
  is the dict, as the list of its items (keys distinct, in insertion order). Numbers
  are the integers; a JSON float is not represented.
\<close>

datatype json =
  JNull
  | JBool bool
  | JNum int
  | JStr string
  | JArr "json list"
  | JObj "(string \<times> json) list"

text \<open>
  The exceptions the program can meet. \<open>NoCredentialsError\<close> and \<open>APIError\<close> are the
  two classes of the source; the others are raised by the libraries it calls:
  \<open>ClientConnectionError\<close> by \<^verbatim>\<open>session.get\<close> when the request gets no answer,
  \<open>ClientResponseError\<close> by \<^verbatim>\<open>raise_for_status\<close> (with the status), \<open>JSONError\<close> by
  \<^verbatim>\<open>response.json()\<close>, \<open>KeyError\<close> and \<open>TypeError\<close> by subscripting, membership and
  iteration, \<open>ProgrammingError\<close>, \<open>OverflowError\<close> and \<open>IntegrityError\<close> by sqlite3,
  \<open>DiscordError\<close> by the user lookup and the webhook.
  \<open>APIError v\<close> is \<^verbatim>\<open>APIError(f"Error while fetching top tracks: {v}")\<close>: it carries
  the value the f-string formats.
\<close>

datatype error =
  NoCredentialsError
  | APIError json
  | ClientConnectionError
  | ClientResponseError nat
  | JSONError
  | KeyError string
  | TypeError
  | ProgrammingError
  | OverflowError
  | IntegrityError
  | DiscordError

text \<open>The text of an exception, where the formatted value is a string.\<close>

fun error_text :: "error \<Rightarrow> string option" where
  "error_text NoCredentialsError = Some ''You need to set your Last.fm username and API key.''"
| "error_text (APIError (JStr m)) = Some (''Error while fetching top tracks: '' @ m)"
| "error_text _ = None"

definition TIME_RANGES :: "string list" where
  "TIME_RANGES = [''7day'', ''1month'', ''3month'', ''6month'', ''12month'', ''overall'']"

record Credentials =
  username :: string
  api_key :: string

record Track =
  artist :: json
  name :: json

subsection \<open>Python's operations on a decoded value\<close>

text \<open>\<^verbatim>\<open>v[k]\<close> for a string key: only a dict has string keys.\<close>

fun subscript :: "json \<Rightarrow> string \<Rightarrow> error + json" where
  "subscript (JObj kvs) k = (case map_of kvs k of None \<Rightarrow> Inl (KeyError k) | Some v \<Rightarrow> Inr v)"
| "subscript _ k = Inl TypeError"

text \<open>
  \<^verbatim>\<open>k in v\<close> for a string \<open>k\<close>: a key of a dict, an element of a list, a substring of
  a string; the other values are not containers.
\<close>

fun contains :: "string \<Rightarrow> json \<Rightarrow> error + bool" where
  "contains k (JObj kvs) = Inr (k \<in> set (map fst kvs))"
| "contains k (JArr xs) = Inr (JStr k \<in> set xs)"
| "contains k (JStr s) = Inr (sublist k s)"
| "contains k _ = Inl TypeError"

text \<open>
  \<^verbatim>\<open>for x in v\<close>: the elements of a list, the keys of a dict, the characters of a
  string; the other values are not iterable.
\<close>

fun iterate :: "json \<Rightarrow> error + json list" where
  "iterate (JArr xs) = Inr xs"
| "iterate (JObj kvs) = Inr (map (\<lambda>kv. JStr (fst kv)) kvs)"
| "iterate (JStr s) = Inr (map (\<lambda>c. JStr [c]) s)"
| "iterate _ = Inl TypeError"

subsection \<open>The database\<close>

text \<open>
  The two tables of \<^verbatim>\<open>daily_music.db\<close>, each as the list of its rows. A user id is
  the \<^verbatim>\<open>INTEGER PRIMARY KEY\<close> of \<open>users\<close>; the three other columns of \<open>tracks\<close> are
  \<^verbatim>\<open>TEXT NOT NULL\<close>.
\<close>

record user_row =
  discord_id :: int
  lfm_username :: string
  lfm_api_key :: string

record track_row =
  user_id :: int
  date :: string
  track_artist :: string
  track_name :: string

record db =
  users :: "user_row list"
  tracks :: "track_row list"

text \<open>
  A Python value bound to a \<^verbatim>\<open>?\<close> of a statement: sqlite3 binds \<open>None\<close>, an int that
  fits 64 bits (a bool is an int) and a str, and refuses a list or a dict. An int that
  does not fit raises \<open>OverflowError\<close>; this holds for the user id of a statement too.
\<close>

datatype sqlval = SNull | SInt int | SText string

definition fits_int64 :: "int \<Rightarrow> bool" where
  "fits_int64 i = (- (2 ^ 63) \<le> i \<and> i < 2 ^ 63)"

fun adapt :: "json \<Rightarrow> error + sqlval" where
  "adapt JNull = Inr SNull"
| "adapt (JBool b) = Inr (SInt (if b then 1 else 0))"
| "adapt (JNum i) =
     (if fits_int64 i then Inr (SInt i) else Inl OverflowError)"
| "adapt (JStr s) = Inr (SText s)"
| "adapt (JArr xs) = Inl ProgrammingError"
| "adapt (JObj kvs) = Inl ProgrammingError"

text \<open>The decimal text of an integer, as SQLite writes it.\<close>

function dec_nat :: "nat \<Rightarrow> string" where
  "dec_nat n =
     (if n < 10 then [char_of (48 + n)] else dec_nat (n div 10) @ [char_of (48 + n mod 10)])"
  by pat_completeness auto
termination
  by (relation "measure (\<lambda>n. n)") auto

definition dec_int :: "int \<Rightarrow> string" where
  "dec_int i = (if i < 0 then CHR ''-'' # dec_nat (nat (- i)) else dec_nat (nat i))"

text \<open>
  A column of \<open>TEXT\<close> affinity: a value compared with it or stored in it is turned
  into text first; \<open>NULL\<close> stays \<open>NULL\<close> (here \<open>None\<close>).
\<close>

fun to_text :: "sqlval \<Rightarrow> string option" where
  "to_text SNull = None"
| "to_text (SInt i) = Some (dec_int i)"
| "to_text (SText s) = Some s"

text \<open>
  \<^verbatim>\<open>SELECT 1 FROM tracks WHERE user_id = ? AND track_artist = ? AND track_name = ?\<close>,
  then \<^verbatim>\<open>fetchone()\<close>: is there such a row. A comparison with \<open>NULL\<close> is never true.
\<close>

definition track_seen :: "track_row list \<Rightarrow> int \<Rightarrow> sqlval \<Rightarrow> sqlval \<Rightarrow> bool" where
  "track_seen rows u a n =
     list_ex (\<lambda>r. user_id r = u \<and> Some (track_artist r) = to_text a
                  \<and> Some (track_name r) = to_text n) rows"

text \<open>
  \<^verbatim>\<open>INSERT INTO tracks VALUES (?, date('now'), ?, ?)\<close> with \<open>today\<close> the value of
  \<^verbatim>\<open>date('now')\<close>: refused for a \<open>NULL\<close> in a \<open>NOT NULL\<close> column and for a second row
  with the same primary key (user_id, track_artist, track_name).
\<close>

definition insert_track ::
  "track_row list \<Rightarrow> int \<Rightarrow> string \<Rightarrow> sqlval \<Rightarrow> sqlval \<Rightarrow> error + track_row list" where
  "insert_track rows u today a n =
     (case to_text a of
        None \<Rightarrow> Inl IntegrityError
      | Some ta \<Rightarrow>
          (case to_text n of
             None \<Rightarrow> Inl IntegrityError
           | Some tn \<Rightarrow>
               if list_ex (\<lambda>r. user_id r = u \<and> track_artist r = ta \<and> track_name r = tn) rows
               then Inl IntegrityError
               else Inr (rows @ [\<lparr>user_id = u, date = today, track_artist = ta,
                                  track_name = tn\<rparr>])))"

text \<open>
  \<^verbatim>\<open>SELECT 1 FROM tracks WHERE user_id = ? AND date = date('now')\<close>, then
  \<^verbatim>\<open>fetchone()\<close>, for a user id that the statement binds.
\<close>

definition delivered_today :: "track_row list \<Rightarrow> int \<Rightarrow> string \<Rightarrow> bool" where
  "delivered_today rows u today = list_ex (\<lambda>r. user_id r = u \<and> date r = today) rows"

section \<open>get\_credentials\<close>

text \<open>
  Lines 59 to 64: the statement binds the user id, \<^verbatim>\<open>fetchone()\<close> gives the row or
  \<open>None\<close>.
\<close>

definition get_credentials :: "db \<Rightarrow> int \<Rightarrow> error + Credentials option" where
  "get_credentials d u =
     (if \<not> fits_int64 u then Inl OverflowError
      else case filter (\<lambda>r. discord_id r = u) (users d) of
        [] \<Rightarrow> Inr None
      | r # _ \<Rightarrow> Inr (Some \<lparr>username = lfm_username r, api_key = lfm_api_key r\<rparr>))"

section \<open>get\_track\<close>

text \<open>
  The answer to one request: the HTTP status, and what \<^verbatim>\<open>response.json()\<close> returns,
  \<open>None\<close> when it raises (a content type that is not JSON, a text that does not
  decode). What \<^verbatim>\<open>session.get\<close> does is a value of \<open>error + response\<close>: \<open>Inl\<close> the
  exception it raises when the request is not answered, \<open>Inr\<close> the answer.
\<close>

record response =
  status :: nat
  body :: "json option"

text \<open>
  Lines 80 to 86, one range: the request; \<^verbatim>\<open>raise_for_status()\<close>, which raises for a
  status of 400 and above; the decoding; the error payload; then
  \<^verbatim>\<open>data["toptracks"]["track"]\<close>.
\<close>

definition fetch_tracks :: "error + response \<Rightarrow> error + json" where
  "fetch_tracks answer =
     (case answer of
        Inl e \<Rightarrow> Inl e
      | Inr r \<Rightarrow>
          if 400 \<le> status r then Inl (ClientResponseError (status r))
          else case body r of
            None \<Rightarrow> Inl JSONError
          | Some data \<Rightarrow>
              (case contains ''error'' data of
                 Inl e \<Rightarrow> Inl e
               | Inr True \<Rightarrow>
                   (case subscript data ''message'' of
                      Inl e \<Rightarrow> Inl e
                    | Inr m \<Rightarrow> Inl (APIError m))
               | Inr False \<Rightarrow>
                   (case subscript data ''toptracks'' of
                      Inl e \<Rightarrow> Inl e
                    | Inr tt \<Rightarrow> subscript tt ''track'')))"

text \<open>Lines 89 and 90: \<^verbatim>\<open>track["artist"]["name"]\<close> and \<^verbatim>\<open>track["name"]\<close>.\<close>

definition track_fields :: "json \<Rightarrow> error + (json \<times> json)" where
  "track_fields t =
     (case subscript t ''artist'' of
        Inl e \<Rightarrow> Inl e
      | Inr ar \<Rightarrow>
          (case subscript ar ''name'' of
             Inl e \<Rightarrow> Inl e
           | Inr a \<Rightarrow>
               (case subscript t ''name'' of
                  Inl e \<Rightarrow> Inl e
                | Inr n \<Rightarrow> Inr (a, n))))"

text \<open>
  Lines 88 to 100, the loop over the tracks of one range. The result is the pair of
  what the call does (raise, return a track, or leave the loop with nothing: \<open>Inr None\<close>)
  and the rows of \<open>tracks\<close> afterwards. The statement of lines 91 to 94 binds the user
  id, then the artist, then the name. The commit of line 99 is taken to succeed.
\<close>

fun scan_tracks ::
  "int \<Rightarrow> string \<Rightarrow> json list \<Rightarrow> track_row list \<Rightarrow> (error + Track option) \<times> track_row list" where
  "scan_tracks u today [] rows = (Inr None, rows)"
| "scan_tracks u today (t # ts) rows =
     (case track_fields t of
        Inl e \<Rightarrow> (Inl e, rows)
      | Inr (a, n) \<Rightarrow>
          if \<not> fits_int64 u then (Inl OverflowError, rows)
          else
            (case adapt a of
               Inl e \<Rightarrow> (Inl e, rows)
             | Inr sa \<Rightarrow>
                 (case adapt n of
                    Inl e \<Rightarrow> (Inl e, rows)
                  | Inr sn \<Rightarrow>
                      if track_seen rows u sa sn then scan_tracks u today ts rows
                      else (case insert_track rows u today sa sn of
                              Inl e \<Rightarrow> (Inl e, rows)
                            | Inr rows' \<Rightarrow>
                                (Inr (Some \<lparr>artist = a, name = n\<rparr>), rows')))))"

text \<open>
  Lines 79 to 100, the loop over the ranges: \<open>session p\<close> is what the request for the
  period \<open>p\<close> does. Falling off the end returns \<open>None\<close>.
\<close>

fun get_track_ranges ::
  "(string \<Rightarrow> error + response) \<Rightarrow> int \<Rightarrow> string \<Rightarrow> string list \<Rightarrow> track_row list
     \<Rightarrow> (error + Track option) \<times> track_row list" where
  "get_track_ranges session u today [] rows = (Inr None, rows)"
| "get_track_ranges session u today (p # ps) rows =
     (case fetch_tracks (session p) of
        Inl e \<Rightarrow> (Inl e, rows)
      | Inr tr \<Rightarrow>
          (case iterate tr of
             Inl e \<Rightarrow> (Inl e, rows)
           | Inr ts \<Rightarrow>
               (case scan_tracks u today ts rows of
                  (Inr None, rows') \<Rightarrow> get_track_ranges session u today ps rows'
                | (res, rows') \<Rightarrow> (res, rows'))))"

text \<open>
  \<open>get_track\<close>: \<open>service\<close> answers the request built from the credentials and the
  period, \<open>today\<close> is \<^verbatim>\<open>date('now')\<close>.
\<close>

definition get_track ::
  "(Credentials \<Rightarrow> string \<Rightarrow> error + response) \<Rightarrow> string \<Rightarrow> db \<Rightarrow> int \<Rightarrow> Credentials
     \<Rightarrow> (error + Track option) \<times> db" where
  "get_track service today d u credentials =
     (case get_track_ranges (service credentials) u today TIME_RANGES (tracks d) of
        (res, rows') \<Rightarrow> (res, d\<lparr>tracks := rows'\<rparr>))"

section \<open>RegisterModal.on\_submit\<close>

text \<open>
  \<^verbatim>\<open>INSERT OR REPLACE INTO users VALUES (?, ?, ?)\<close>: the row of this id, if any, is
  replaced; a scan of \<open>users\<close> meets the rows by increasing id. The statement does not
  name \<open>tracks\<close>. An id that does not fit 64 bits is not bound: the statement raises
  \<open>OverflowError\<close> and the database stays as it was.
\<close>

definition on_submit :: "db \<Rightarrow> int \<Rightarrow> string \<Rightarrow> string \<Rightarrow> db" where
  "on_submit d u un key =
     (if \<not> fits_int64 u then d
      else d\<lparr>users := insort_key discord_id
                  \<lparr>discord_id = u, lfm_username = un, lfm_api_key = key\<rparr>
                  (filter (\<lambda>r. discord_id r \<noteq> u) (users d))\<rparr>)"

section \<open>daily\_task\<close>

text \<open>What the sweep reads of a resolved user to build the embed.\<close>

record discord_user =
  ident :: int
  global_name :: "string option"
  avatar_url :: string
  accent_color :: "nat option"

text \<open>
  The world outside the program during one sweep: \<open>service u\<close> answers the requests
  made for the user \<open>u\<close>; \<open>get_user\<close> is the bot's cache and \<open>fetch_user\<close> the lookup
  over the network, which can raise; the source tests its result on line 157, so the
  result may be no user here as well. \<open>webhook_send\<close> is \<open>None\<close> when the webhook accepts
  the message built from the user and the track, and the exception it raises otherwise.
\<close>

record env =
  service :: "int \<Rightarrow> Credentials \<Rightarrow> string \<Rightarrow> error + response"
  get_user :: "int \<Rightarrow> discord_user option"
  fetch_user :: "int \<Rightarrow> error + discord_user option"
  webhook_send :: "discord_user \<Rightarrow> Track \<Rightarrow> error option"

text \<open>
  What a sweep has done so far: the database, the messages the webhook accepted (each
  with the id of the user whose turn sent it, the resolved user and the track), and the
  errors logged by line 152.
\<close>

record sweep =
  s_db :: db
  sent :: "(int \<times> discord_user \<times> Track) list"
  logged :: "(int \<times> error) list"

text \<open>
  Lines 142 to 168, the loop over the rows of \<open>users\<close>. The second component is the
  exception that leaves \<open>daily_task\<close>, if any: only the call of \<open>get_track\<close> stands in
  the \<^verbatim>\<open>try\<close>. \<open>today\<close> is \<^verbatim>\<open>date('now')\<close>, the same at every statement of one
  sweep. The ids are read from the column \<open>discord_id\<close> of \<open>users\<close>, an
  \<^verbatim>\<open>INTEGER PRIMARY KEY\<close>: what is read there fits 64 bits, and the statement of
  line 143 binds it.
\<close>

fun daily_task_users :: "env \<Rightarrow> string \<Rightarrow> user_row list \<Rightarrow> sweep \<Rightarrow> sweep \<times> error option" where
  "daily_task_users e today [] st = (st, None)"
| "daily_task_users e today (r # rest) st =
     (if delivered_today (tracks (s_db st)) (discord_id r) today
      then daily_task_users e today rest st
      else
        (case get_track (service e (discord_id r)) today (s_db st) (discord_id r)
                \<lparr>username = lfm_username r, api_key = lfm_api_key r\<rparr> of
           (Inl err, d') \<Rightarrow>
             daily_task_users e today rest
               (st\<lparr>s_db := d', logged := logged st @ [(discord_id r, err)]\<rparr>)
         | (Inr None, d') \<Rightarrow> daily_task_users e today rest (st\<lparr>s_db := d'\<rparr>)
         | (Inr (Some t), d') \<Rightarrow>
             (case (case get_user e (discord_id r) of
                      Some usr \<Rightarrow> Inr (Some usr)
                    | None \<Rightarrow> fetch_user e (discord_id r)) of
                Inl err \<Rightarrow> (st\<lparr>s_db := d'\<rparr>, Some err)
              | Inr None \<Rightarrow> daily_task_users e today rest (st\<lparr>s_db := d'\<rparr>)
              | Inr (Some usr) \<Rightarrow>
                  (case webhook_send e usr t of
                     Some err \<Rightarrow> (st\<lparr>s_db := d'\<rparr>, Some err)
                   | None \<Rightarrow>
                       daily_task_users e today rest
                         (st\<lparr>s_db := d', sent := sent st @ [(discord_id r, usr, t)]\<rparr>)))))"

definition daily_task :: "env \<Rightarrow> string \<Rightarrow> db \<Rightarrow> sweep \<times> error option" where
  "daily_task e today d =
     daily_task_users e today (users d) \<lparr>s_db = d, sent = [], logged = []\<rparr>"

section \<open>Properties of responses and of the ledger\<close>

text \<open>
  The decoded payload is an object with an \<open>error\<close> member; an answered request carries
  such a payload.
\<close>

definition embeds_error :: "json \<Rightarrow> bool" where
  "embeds_error data = (case data of JObj kvs \<Rightarrow> ''error'' \<in> set (map fst kvs) | _ \<Rightarrow> False)"

definition error_response :: "error + response \<Rightarrow> bool" where
  "error_response answer =
     (case answer of
        Inl e \<Rightarrow> False
      | Inr r \<Rightarrow> (case body r of None \<Rightarrow> False | Some data \<Rightarrow> embeds_error data))"

text \<open>
  The decoded payload is an object whose \<open>toptracks\<close> member is an object with a
  \<open>track\<close> member, whatever that member holds.
\<close>

definition has_top_tracks :: "json \<Rightarrow> bool" where
  "has_top_tracks data =
     (case data of
        JObj kvs \<Rightarrow>
          (case map_of kvs ''toptracks'' of
             Some (JObj tt) \<Rightarrow> map_of tt ''track'' \<noteq> None
           | _ \<Rightarrow> False)
      | _ \<Rightarrow> False)"

text \<open>
  The shape of a response as the interface of the service gives it: JSON with either
  an \<open>error\<close> and a \<open>message\<close>, or a \<open>toptracks.track\<close> array of objects with an
  \<open>artist.name\<close> and a \<open>name\<close>, both strings. A response is malformed when its body
  does not decode or decodes to a value of another shape. A status is a success from
  200 to 299.
\<close>

definition track_object :: "json \<Rightarrow> bool" where
  "track_object t =
     (case t of
        JObj kvs \<Rightarrow>
          (case map_of kvs ''artist'' of
             Some (JObj ar) \<Rightarrow>
               (case map_of ar ''name'' of
                  Some (JStr a) \<Rightarrow> (case map_of kvs ''name'' of Some (JStr n) \<Rightarrow> True | _ \<Rightarrow> False)
                | _ \<Rightarrow> False)
           | _ \<Rightarrow> False)
      | _ \<Rightarrow> False)"

definition well_formed :: "json \<Rightarrow> bool" where
  "well_formed data =
     (case data of
        JObj kvs \<Rightarrow>
          (map_of kvs ''error'' \<noteq> None \<and> map_of kvs ''message'' \<noteq> None)
          \<or> (case map_of kvs ''toptracks'' of
               Some (JObj tt) \<Rightarrow>
                 (case map_of tt ''track'' of
                    Some (JArr ts) \<Rightarrow> list_all track_object ts
                  | _ \<Rightarrow> False)
             | _ \<Rightarrow> False)
      | _ \<Rightarrow> False)"

definition malformed :: "response \<Rightarrow> bool" where
  "malformed r = (case body r of None \<Rightarrow> True | Some data \<Rightarrow> \<not> well_formed data)"

definition non_success :: "response \<Rightarrow> bool" where
  "non_success r = (status r < 200 \<or> 300 \<le> status r)"

text \<open>The errors of a subscript, a membership test or an iteration.\<close>

definition lookup_error :: "error \<Rightarrow> bool" where
  "lookup_error e = (case e of KeyError k \<Rightarrow> True | TypeError \<Rightarrow> True | _ \<Rightarrow> False)"

text \<open>
  The text under which a value read from a track is compared and stored, when sqlite3
  binds it and it is not \<open>NULL\<close>; and the presence of a row with a given key.
\<close>

definition track_text :: "json \<Rightarrow> string option" where
  "track_text v = (case adapt v of Inl e \<Rightarrow> None | Inr s \<Rightarrow> to_text s)"

definition key_in_ledger :: "track_row list \<Rightarrow> int \<Rightarrow> string \<Rightarrow> string \<Rightarrow> bool" where
  "key_in_ledger rows u ta tn =
     list_ex (\<lambda>r. user_id r = u \<and> track_artist r = ta \<and> track_name r = tn) rows"

text \<open>
  An entry of a track list is a seen track when its artist and name can be read, the
  statement of lines 91 to 94 binds the user id and both of them, and the ledger has
  the row of the user with these two texts.
\<close>

definition seen_track :: "track_row list \<Rightarrow> int \<Rightarrow> json \<Rightarrow> bool" where
  "seen_track rows u t =
     (fits_int64 u \<and>
      (case track_fields t of
         Inl e \<Rightarrow> False
       | Inr (a, n) \<Rightarrow>
           (case track_text a of
              None \<Rightarrow> False
            | Some ta \<Rightarrow>
                (case track_text n of
                   None \<Rightarrow> False
                 | Some tn \<Rightarrow> key_in_ledger rows u ta tn))))"

text \<open>
  The entries the loop of \<open>get_track\<close> goes through for one response, when the fetch and
  the start of the iteration raise nothing; and a range whose entries are all seen.
\<close>

definition range_tracks :: "error + response \<Rightarrow> json list option" where
  "range_tracks r =
     (case fetch_tracks r of
        Inl e \<Rightarrow> None
      | Inr tr \<Rightarrow> (case iterate tr of Inl e \<Rightarrow> None | Inr ts \<Rightarrow> Some ts))"

definition range_all_seen :: "(string \<Rightarrow> error + response) \<Rightarrow> track_row list \<Rightarrow> int \<Rightarrow> string \<Rightarrow> bool" where
  "range_all_seen s rows u q =
     (case range_tracks (s q) of None \<Rightarrow> False | Some ts \<Rightarrow> list_all (seen_track rows u) ts)"

text \<open>
  The number of rows of a user dated \<open>today\<close>, and the number of messages sent on the
  turns of a user.
\<close>

definition rows_today :: "int \<Rightarrow> string \<Rightarrow> sweep \<Rightarrow> nat" where
  "rows_today u today st = length (filter (\<lambda>r. user_id r = u \<and> date r = today) (tracks (s_db st)))"

definition sent_to :: "int \<Rightarrow> sweep \<Rightarrow> nat" where
  "sent_to u st = length (filter (\<lambda>m. fst m = u) (sent st))"

section \<open>Sequences of sweeps and registrations\<close>

text \<open>
  What happens to the database over time: the task fires (with the world as it is then,
  on a given date) and users submit the registration modal, in any order. The messages
  and the log of the sweeps accumulate; a sweep that an exception leaves keeps what it
  has done until then.
\<close>

datatype event = Fire env string | Register int string string

fun run :: "event list \<Rightarrow> sweep \<Rightarrow> sweep" where
  "run [] st = st"
| "run (Fire e today # evs) st =
     (let st1 = fst (daily_task e today (s_db st))
      in run evs \<lparr>s_db = s_db st1, sent = sent st @ sent st1, logged = logged st @ logged st1\<rparr>)"
| "run (Register u un key # evs) st = run evs (st\<lparr>s_db := on_submit (s_db st) u un key\<rparr>)"

definition fires_on :: "string \<Rightarrow> event list \<Rightarrow> bool" where
  "fires_on today evs =
     list_all (\<lambda>ev. case ev of Fire e d \<Rightarrow> d = today | Register u un key \<Rightarrow> True) evs"

section \<open>Steps of a sweep\<close>

text \<open>
  What one turn of the loop of \<open>daily_task\<close> can do for the user \<open>u\<close>: nothing to the
  ledger and the messages, or, for a user with no row of today, one row of today for
  \<open>u\<close> and at most one message on the turn of \<open>u\<close>. \<open>reaches\<close> chains such turns.
\<close>

definition sweep_step :: "string \<Rightarrow> int \<Rightarrow> sweep \<Rightarrow> sweep \<Rightarrow> bool" where
  "sweep_step today u st st1 =
     (users (s_db st1) = users (s_db st) \<and>
      (tracks (s_db st1) = tracks (s_db st) \<and> sent st1 = sent st
       \<or> \<not> delivered_today (tracks (s_db st)) u today
         \<and> (\<exists>ta tn. tracks (s_db st1) = tracks (s_db st)
               @ [\<lparr>user_id = u, date = today, track_artist = ta, track_name = tn\<rparr>])
         \<and> (sent st1 = sent st \<or> (\<exists>usr t. sent st1 = sent st @ [(u, usr, t)]))))"

inductive reaches :: "string \<Rightarrow> sweep \<Rightarrow> sweep \<Rightarrow> bool" for today where
  reaches_refl: "reaches today st st"
| reaches_step: "sweep_step today u st st1 \<Longrightarrow> reaches today st1 st2 \<Longrightarrow> reaches today st st2"

text \<open>
  A user is settled when a sweep has nothing left to do for them: they have a row of
  today, or \<open>get_track\<close> on these rows returns no track and leaves the rows as they are.
\<close>

definition settled :: "env \<Rightarrow> string \<Rightarrow> track_row list \<Rightarrow> user_row \<Rightarrow> bool" where
  "settled e today rows r =
     (delivered_today rows (discord_id r) today
      \<or> (\<exists>res. get_track_ranges (service e (discord_id r)
                    \<lparr>username = lfm_username r, api_key = lfm_api_key r\<rparr>)
                  (discord_id r) today TIME_RANGES rows = (res, rows)
               \<and> (\<forall>t. res \<noteq> Inr (Some t))))"

section \<open>Example data\<close>

definition ann :: Credentials where
  "ann = \<lparr>username = ''ann'', api_key = ''k1''\<rparr>"

definition ann_row :: user_row where
  "ann_row = \<lparr>discord_id = 1, lfm_username = ''ann'', lfm_api_key = ''k1''\<rparr>"

definition bob_row :: user_row where
  "bob_row = \<lparr>discord_id = 2, lfm_username = ''bob'', lfm_api_key = ''k2''\<rparr>"

definition ann_user :: discord_user where
  "ann_user = \<lparr>ident = 1, global_name = None, avatar_url = ''a.png'', accent_color = Some 255\<rparr>"

definition bob_user :: discord_user where
  "bob_user = \<lparr>ident = 2, global_name = Some ''Bob'', avatar_url = ''b.png'', accent_color = None\<rparr>"

definition track_json :: "string \<Rightarrow> string \<Rightarrow> json" where
  "track_json a n = JObj [(''artist'', JObj [(''name'', JStr a)]), (''name'', JStr n)]"

definition top_tracks :: "json list \<Rightarrow> error + response" where
  "top_tracks ts =
     Inr \<lparr>status = 200, body = Some (JObj [(''toptracks'', JObj [(''track'', JArr ts)])])\<rparr>"

definition not_found :: response where
  "not_found =
     \<lparr>status = 200,
      body = Some (JObj [(''error'', JNum 6), (''message'', JStr ''User not found'')])\<rparr>"

definition failing_service :: "Credentials \<Rightarrow> string \<Rightarrow> error + response" where
  "failing_service c p = Inr not_found"

definition forbidden :: "string \<Rightarrow> response" where
  "forbidden m = \<lparr>status = 403, body = Some (JObj [(''error'', JNum 10), (''message'', JStr m)])\<rparr>"

definition broken_list :: response where
  "broken_list =
     \<lparr>status = 200,
      body = Some (JObj [(''toptracks'',
               JObj [(''track'', JArr [track_json ''Y'' ''C'', JNum 42])])])\<rparr>"

definition multiple_choices :: response where
  "multiple_choices =
     \<lparr>status = 300,
      body = Some (JObj [(''toptracks'', JObj [(''track'', JArr [track_json ''Y'' ''C''])])])\<rparr>"

definition svc_next :: "Credentials \<Rightarrow> string \<Rightarrow> error + response" where
  "svc_next c p =
     (if p = ''7day'' then top_tracks [track_json ''X'' ''A'']
      else if p = ''1month''
        then top_tracks [track_json ''X'' ''A'', track_json ''Y'' ''C'', track_json ''Z'' ''D'']
      else Inr \<lparr>status = 500, body = None\<rparr>)"


definition db2 :: db where
  "db2 = \<lparr>users = [ann_row, bob_row], tracks = []\<rparr>"

definition db_seen :: db where
  "db_seen = \<lparr>users = [ann_row],
              tracks = [\<lparr>user_id = 1, date = ''2024-05-01'', track_artist = ''X'',
                         track_name = ''A''\<rparr>]\<rparr>"

definition row_XA :: "int \<Rightarrow> track_row" where
  "row_XA u = \<lparr>user_id = u, date = ''2024-05-02'', track_artist = ''X'', track_name = ''A''\<rparr>"

definition track_XA :: Track where
  "track_XA = \<lparr>artist = JStr ''X'', name = JStr ''A''\<rparr>"

definition env_ok :: env where
  "env_ok =
     \<lparr>service = (\<lambda>u c p. top_tracks [track_json ''X'' ''A'']),
      get_user = (\<lambda>u. if u = 2 then Some bob_user else None),
      fetch_user = (\<lambda>u. Inr (Some ann_user)),
      webhook_send = (\<lambda>usr t. None)\<rparr>"

definition env_lookup_raises :: env where
  "env_lookup_raises =
     \<lparr>service = (\<lambda>u c p. top_tracks [track_json ''X'' ''A'']),
      get_user = (\<lambda>u. None),
      fetch_user = (\<lambda>u. if u = 1 then Inl DiscordError else Inr (Some bob_user)),
      webhook_send = (\<lambda>usr t. None)\<rparr>"

definition env_service_fails :: env where
  "env_service_fails =
     \<lparr>service = (\<lambda>u c p. if u = 1 then failing_service c p else top_tracks [track_json ''X'' ''A'']),
      get_user = (\<lambda>u. None),
      fetch_user = (\<lambda>u. Inr (Some bob_user)),
      webhook_send = (\<lambda>usr t. None)\<rparr>"


definition swept :: sweep where
  "swept = \<lparr>s_db = \<lparr>users = [ann_row, bob_row], tracks = [row_XA 1, row_XA 2]\<rparr>,
            sent = [(1, ann_user, track_XA), (2, bob_user, track_XA)], logged = []\<rparr>"

section \<open>What a call of get\_track does to the ledger\<close>

lemma insert_track_Inr:
  "insert_track rows u today a n = Inr rows' \<Longrightarrow>
     \<exists>ta tn. to_text a = Some ta \<and> to_text n = Some tn \<and>
       rows' = rows @ [\<lparr>user_id = u, date = today, track_artist = ta, track_name = tn\<rparr>]"
  by (auto simp: insert_track_def split: option.splits if_splits)

lemma scan_tracks_rows:
  "scan_tracks u today ts rows = (res, rows') \<Longrightarrow>
     (case res of
        Inr (Some t) \<Rightarrow> \<exists>ta tn. rows' = rows @ [\<lparr>user_id = u, date = today, track_artist = ta, track_name = tn\<rparr>]
      | _ \<Rightarrow> rows' = rows)"
proof (induction ts)
  case Nil
  then show ?case by auto
next
  case (Cons t ts)
  then show ?case
    by (auto split: sum.splits prod.splits if_splits option.splits dest: insert_track_Inr)
qed

lemma get_track_ranges_rows:
  "get_track_ranges s u today ps rows = (res, rows') \<Longrightarrow>
     (case res of
        Inr (Some t) \<Rightarrow> \<exists>ta tn. rows' = rows @ [\<lparr>user_id = u, date = today, track_artist = ta, track_name = tn\<rparr>]
      | _ \<Rightarrow> rows' = rows)"
proof (induction ps arbitrary: rows)
  case Nil
  then show ?case by auto
next
  case (Cons p ps)
  show ?case
  proof (cases "fetch_tracks (s p)")
    case (Inl e)
    with Cons.prems show ?thesis by auto
  next
    case (Inr tr)
    note ft = this
    show ?thesis
    proof (cases "iterate tr")
      case (Inl e)
      with ft Cons.prems show ?thesis by auto
    next
      case (Inr ts)
      obtain r1 rows1 where sc: "scan_tracks u today ts rows = (r1, rows1)" by force
      from scan_tracks_rows[OF sc] Cons.prems ft Inr sc Cons.IH
      show ?thesis
        by (auto split: sum.splits option.splits)
    qed
  qed
qed

lemma get_track_rows:
  "get_track svc today d u c = (res, d') \<Longrightarrow>
     users d' = users d \<and>
     (case res of
        Inr (Some t) \<Rightarrow> \<exists>ta tn. tracks d' = tracks d @ [\<lparr>user_id = u, date = today, track_artist = ta, track_name = tn\<rparr>]
      | _ \<Rightarrow> d' = d)"
proof -
  assume a: "get_track svc today d u c = (res, d')"
  obtain rows' where g: "get_track_ranges (svc c) u today TIME_RANGES (tracks d) = (res, rows')"
    and d': "d' = d\<lparr>tracks := rows'\<rparr>"
    using a by (auto simp: get_track_def split: prod.splits)
  from get_track_ranges_rows[OF g] d' show ?thesis
    by (auto split: sum.splits option.splits)
qed

lemma get_track_ranges_of:
  "get_track svc today d u c = (res, d') \<Longrightarrow>
     get_track_ranges (svc c) u today TIME_RANGES (tracks d) = (res, tracks d')"
  by (auto simp: get_track_def split: prod.splits)

lemma get_track_of_ranges:
  "get_track_ranges (svc c) u today TIME_RANGES (tracks d) = (res, tracks d) \<Longrightarrow>
     get_track svc today d u c = (res, d)"
  by (simp add: get_track_def)

lemma get_track_prefix: "prefix (tracks d) (tracks (snd (get_track svc today d u c)))"
proof -
  obtain res d' where g: "get_track svc today d u c = (res, d')" by force
  from get_track_rows[OF g] g show ?thesis
    by (auto split: sum.splits option.splits)
qed

section \<open>The fetch of one range\<close>

lemma subscript_Inr: "subscript v k = Inr x \<longleftrightarrow> (\<exists>kvs. v = JObj kvs \<and> map_of kvs k = Some x)"
  by (cases v) (auto split: option.splits)

lemma fetch_tracks_ok:
  "(\<exists>tr. fetch_tracks (Inr r) = Inr tr) \<longleftrightarrow>
     status r < 400 \<and> (\<exists>data. body r = Some data \<and> \<not> embeds_error data \<and> has_top_tracks data)"
proof (cases "400 \<le> status r")
  case True
  then show ?thesis by (simp add: fetch_tracks_def)
next
  case False
  show ?thesis
  proof (cases "body r")
    case None
    with False show ?thesis by (simp add: fetch_tracks_def)
  next
    case (Some data)
    show ?thesis
    proof (cases data)
      case (JObj kvs)
      show ?thesis
      proof (cases "''error'' \<in> set (map fst kvs)")
        case True
        with False Some JObj show ?thesis
          by (simp add: fetch_tracks_def embeds_error_def split: sum.splits)
      next
        case ne: False
        with False Some JObj show ?thesis
          by (auto simp: fetch_tracks_def embeds_error_def has_top_tracks_def subscript_Inr
              split: sum.splits option.splits json.splits)
      qed
    qed (use False Some in \<open>auto simp: fetch_tracks_def embeds_error_def has_top_tracks_def
          split: sum.splits bool.splits\<close>)
  qed
qed

lemma fetch_tracks_fails:
  "(\<exists>err. fetch_tracks (Inr r) = Inl err) \<longleftrightarrow>
     (400 \<le> status r \<or> body r = None
      \<or> (\<exists>data. body r = Some data \<and> (embeds_error data \<or> \<not> has_top_tracks data)))"
proof -
  have "(\<exists>err. fetch_tracks (Inr r) = Inl err) \<longleftrightarrow> \<not> (\<exists>tr. fetch_tracks (Inr r) = Inr tr)"
    by (cases "fetch_tracks (Inr r)") auto
  also have "\<dots> \<longleftrightarrow> (400 \<le> status r \<or> body r = None
      \<or> (\<exists>data. body r = Some data \<and> (embeds_error data \<or> \<not> has_top_tracks data)))"
    unfolding fetch_tracks_ok by (cases "body r") auto
  finally show ?thesis .
qed

lemma well_formed_has_top_tracks:
  assumes "well_formed data"
  shows "embeds_error data \<or> has_top_tracks data"
proof (cases data)
  case (JObj kvs)
  show ?thesis
  proof (cases "map_of kvs ''error'' = None")
    case False
    then have "''error'' \<in> set (map fst kvs)" by (simp add: map_of_eq_None_iff)
    with JObj show ?thesis by (simp add: embeds_error_def)
  next
    case True
    with assms JObj
    have w: "(case map_of kvs ''toptracks'' of
               Some (JObj tt) \<Rightarrow>
                 (case map_of tt ''track'' of
                    Some (JArr ts) \<Rightarrow> list_all track_object ts
                  | _ \<Rightarrow> False)
             | _ \<Rightarrow> False)"
      by (simp add: well_formed_def)
    then obtain tt where t: "map_of kvs ''toptracks'' = Some (JObj tt)"
      by (auto split: option.splits json.splits)
    with w have "map_of tt ''track'' \<noteq> None" by (auto split: option.splits)
    with JObj t show ?thesis by (simp add: has_top_tracks_def)
  qed
qed (use assms in \<open>simp_all add: well_formed_def\<close>)

lemma fetch_tracks_only_when:
  assumes "fetch_tracks (Inr r) = Inl err"
  shows "non_success r \<or> malformed r \<or> error_response (Inr r)"
proof -
  from assms fetch_tracks_fails[of r]
  consider "400 \<le> status r" | "body r = None"
    | data where "body r = Some data" "embeds_error data"
    | data where "body r = Some data" "\<not> embeds_error data" "\<not> has_top_tracks data"
    by auto
  then show ?thesis
  proof cases
    case 1
    then show ?thesis by (simp add: non_success_def)
  next
    case 2
    then show ?thesis by (simp add: malformed_def)
  next
    case 3
    then show ?thesis by (simp add: error_response_def)
  next
    case 4
    with well_formed_has_top_tracks[of data] show ?thesis by (auto simp: malformed_def)
  qed
qed

lemma fetch_tracks_kinds:
  assumes "fetch_tracks (Inr r) = Inl err"
  shows "err = ClientResponseError (status r) \<or> err = JSONError \<or> (\<exists>m. err = APIError m)
         \<or> lookup_error err"
proof (cases "400 \<le> status r")
  case True
  with assms show ?thesis by (simp add: fetch_tracks_def)
next
  case False
  show ?thesis
  proof (cases "body r")
    case None
    with assms False show ?thesis by (simp add: fetch_tracks_def)
  next
    case (Some data)
    have sub: "\<And>v k e. subscript v k = Inl e \<Longrightarrow> lookup_error e"
    proof -
      fix v k e
      assume "subscript v k = Inl e"
      then show "lookup_error e"
        by (cases v) (auto simp: lookup_error_def split: option.splits)
    qed
    have con: "\<And>k v e. contains k v = Inl e \<Longrightarrow> lookup_error e"
    proof -
      fix k v e
      assume "contains k v = Inl e"
      then show "lookup_error e" by (cases v) (auto simp: lookup_error_def)
    qed
    from assms False Some show ?thesis
      by (auto simp: fetch_tracks_def split: sum.splits bool.splits dest: sub con)
  qed
qed

lemma fetch_tracks_api_error:
  assumes "status r < 400" and "body r = Some (JObj kvs)"
    and "''error'' \<in> set (map fst kvs)" and "map_of kvs ''message'' = Some m"
  shows "fetch_tracks (Inr r) = Inl (APIError m)"
  using assms by (simp add: fetch_tracks_def)

lemma fetch_tracks_error_response:
  "error_response answer \<Longrightarrow> \<exists>err. fetch_tracks answer = Inl err"
proof (cases answer)
  case (Inl e)
  then show ?thesis by (simp add: fetch_tracks_def)
next
  case (Inr r)
  assume "error_response answer"
  with Inr obtain data where "body r = Some data" "embeds_error data"
    by (auto simp: error_response_def split: option.splits)
  with fetch_tracks_fails[of r] Inr show ?thesis by blast
qed

lemma get_track_first_range_fails:
  "fetch_tracks (svc c ''7day'') = Inl err \<Longrightarrow> get_track svc today d u c = (Inl err, d)"
  by (simp add: get_track_def TIME_RANGES_def)

section \<open>The scan in rank order\<close>

lemma track_text_Some:
  "track_text v = Some x \<Longrightarrow> \<exists>s. adapt v = Inr s \<and> to_text s = Some x"
  by (auto simp: track_text_def split: sum.splits)

lemma track_seen_key:
  "to_text sa = Some ta \<Longrightarrow> to_text sn = Some tn
     \<Longrightarrow> track_seen rows u sa sn = key_in_ledger rows u ta tn"
  by (auto simp: track_seen_def key_in_ledger_def list_ex_iff)

lemma scan_tracks_seen_head:
  assumes "seen_track rows u t"
  shows "scan_tracks u today (t # ts) rows = scan_tracks u today ts rows"
proof -
  from assms obtain a n ta tn where
    fits: "fits_int64 u" and
    tf: "track_fields t = Inr (a, n)" and ta: "track_text a = Some ta"
    and tn: "track_text n = Some tn" and k: "key_in_ledger rows u ta tn"
    by (auto simp: seen_track_def split: sum.splits option.splits)
  from track_text_Some[OF ta] obtain sa where sa: "adapt a = Inr sa" "to_text sa = Some ta" by blast
  from track_text_Some[OF tn] obtain sn where sn: "adapt n = Inr sn" "to_text sn = Some tn" by blast
  from track_seen_key[OF sa(2) sn(2), of rows u] k have "track_seen rows u sa sn" by simp
  with tf sa sn fits show ?thesis by simp
qed

lemma scan_tracks_all_seen:
  "list_all (seen_track rows u) old
     \<Longrightarrow> scan_tracks u today (old @ rest) rows = scan_tracks u today rest rows"
proof (induction old)
  case Nil
  then show ?case by simp
next
  case (Cons t old)
  then have "seen_track rows u t" and "list_all (seen_track rows u) old" by simp_all
  with scan_tracks_seen_head[of rows u t today "old @ rest"] Cons.IH show ?case by simp
qed

lemma scan_tracks_unseen_head:
  assumes "fits_int64 u"
    and "track_fields t = Inr (a, n)" and "track_text a = Some ta" and "track_text n = Some tn"
    and "\<not> key_in_ledger rows u ta tn"
  shows "scan_tracks u today (t # later) rows
         = (Inr (Some \<lparr>artist = a, name = n\<rparr>),
            rows @ [\<lparr>user_id = u, date = today, track_artist = ta, track_name = tn\<rparr>])"
proof -
  from track_text_Some[OF assms(3)] obtain sa where sa: "adapt a = Inr sa" "to_text sa = Some ta" by blast
  from track_text_Some[OF assms(4)] obtain sn where sn: "adapt n = Inr sn" "to_text sn = Some tn" by blast
  from track_seen_key[OF sa(2) sn(2), of rows u] assms(5) have ns: "\<not> track_seen rows u sa sn" by simp
  from assms(5) sa sn have
    "insert_track rows u today sa sn
       = Inr (rows @ [\<lparr>user_id = u, date = today, track_artist = ta, track_name = tn\<rparr>])"
    by (simp add: insert_track_def key_in_ledger_def)
  with assms(1,2) sa sn ns show ?thesis by simp
qed

lemma range_tracks_Some:
  "range_tracks r = Some ts \<Longrightarrow> \<exists>tr. fetch_tracks r = Inr tr \<and> iterate tr = Inr ts"
  by (auto simp: range_tracks_def split: sum.splits)

lemma get_track_ranges_seen_head:
  assumes "range_all_seen s rows u q"
  shows "get_track_ranges s u today (q # ps) rows = get_track_ranges s u today ps rows"
proof -
  from assms obtain ts where rt: "range_tracks (s q) = Some ts"
    and al: "list_all (seen_track rows u) ts"
    by (auto simp: range_all_seen_def split: option.splits)
  from range_tracks_Some[OF rt] obtain tr where f: "fetch_tracks (s q) = Inr tr" "iterate tr = Inr ts"
    by blast
  from scan_tracks_all_seen[OF al, of today "[]"]
  have "scan_tracks u today ts rows = (Inr None, rows)" by simp
  with f show ?thesis by simp
qed

lemma get_track_ranges_all_seen:
  "list_all (range_all_seen s rows u) pre
     \<Longrightarrow> get_track_ranges s u today (pre @ ps) rows = get_track_ranges s u today ps rows"
proof (induction pre)
  case Nil
  then show ?case by simp
next
  case (Cons q pre)
  then have "range_all_seen s rows u q" and "list_all (range_all_seen s rows u) pre" by simp_all
  with get_track_ranges_seen_head[of s rows u q today "pre @ ps"] Cons.IH show ?case by simp
qed

text \<open>A track that is returned had no row before the call.\<close>

lemma scan_tracks_fresh:
  "scan_tracks u today ts rows = (Inr (Some t), rows') \<Longrightarrow>
     \<exists>ta tn. track_text (artist t) = Some ta \<and> track_text (name t) = Some tn
        \<and> \<not> key_in_ledger rows u ta tn"
proof (induction ts)
  case Nil
  then show ?case by simp
next
  case (Cons x ts)
  show ?case
  proof (cases "track_fields x")
    case (Inl err)
    with Cons.prems show ?thesis by simp
  next
    case (Inr an)
    obtain a n where an: "an = (a, n)" by (cases an)
    show ?thesis
    proof (cases "fits_int64 u")
      case False
      with Cons.prems Inr an show ?thesis by simp
    next
    case fits: True
    show ?thesis
    proof (cases "adapt a")
      case (Inl err)
      with Cons.prems Inr an fits show ?thesis by simp
    next
      case sa: (Inr sa)
      show ?thesis
      proof (cases "adapt n")
        case (Inl err)
        with Cons.prems Inr an sa fits show ?thesis by simp
      next
        case sn: (Inr sn)
        show ?thesis
        proof (cases "track_seen rows u sa sn")
          case True
          with Cons.prems Inr an sa sn fits Cons.IH show ?thesis by simp
        next
          case False
          with Cons.prems Inr an sa sn fits obtain rows1 where
            ins: "insert_track rows u today sa sn = Inr rows1" and
            tt: "t = \<lparr>artist = a, name = n\<rparr>"
            by (auto split: sum.splits)
          from insert_track_Inr[OF ins] obtain ta tn where
            tx: "to_text sa = Some ta" "to_text sn = Some tn" by blast
          from track_seen_key[OF tx, of rows u] False have "\<not> key_in_ledger rows u ta tn" by simp
          with tt sa sn tx show ?thesis by (simp add: track_text_def)
        qed
      qed
    qed
    qed
  qed
qed

lemma get_track_ranges_fresh:
  "get_track_ranges s u today ps rows = (Inr (Some t), rows') \<Longrightarrow>
     \<exists>ta tn. track_text (artist t) = Some ta \<and> track_text (name t) = Some tn
        \<and> \<not> key_in_ledger rows u ta tn"
proof (induction ps)
  case Nil
  then show ?case by simp
next
  case (Cons p ps)
  show ?case
  proof (cases "fetch_tracks (s p)")
    case (Inl err)
    with Cons.prems show ?thesis by simp
  next
    case ft: (Inr tr)
    show ?thesis
    proof (cases "iterate tr")
      case (Inl err)
      with ft Cons.prems show ?thesis by simp
    next
      case it: (Inr ts)
      obtain r1 rows1 where sc: "scan_tracks u today ts rows = (r1, rows1)" by force
      show ?thesis
      proof (cases "r1 = Inr None")
        case True
        from scan_tracks_rows[OF sc] True have "rows1 = rows" by simp
        with Cons.prems ft it sc True Cons.IH show ?thesis by simp
      next
        case False
        with Cons.prems ft it sc have "r1 = Inr (Some t)"
          by (auto split: sum.splits option.splits)
        with sc scan_tracks_fresh show ?thesis by blast
      qed
    qed
  qed
qed

lemma key_in_ledger_prefix:
  "prefix rows rows' \<Longrightarrow> key_in_ledger rows u ta tn \<Longrightarrow> key_in_ledger rows' u ta tn"
  by (auto simp: prefix_def key_in_ledger_def list_ex_iff)

section \<open>Calls that return no track\<close>

text \<open>
  A call that returns no track does the same on any rows that answer the membership
  test of this user alike: an insert that is refused after a failed membership test is
  refused for a \<open>NULL\<close>.
\<close>

lemma track_seen_append_other:
  "list_all (\<lambda>r. user_id r \<noteq> u) new \<Longrightarrow> track_seen (rows @ new) u a n = track_seen rows u a n"
  by (auto simp: track_seen_def list_ex_iff list_all_iff)

lemma insert_track_fail_cong:
  "insert_track rows u today a n = Inl err \<Longrightarrow> \<not> track_seen rows u a n
     \<Longrightarrow> insert_track rows2 u today a n = Inl err"
  by (auto simp: insert_track_def track_seen_def list_ex_iff split: option.splits if_splits)

lemma scan_tracks_noop_cong:
  assumes "scan_tracks u today ts rows = (res, rows')"
    and "\<forall>t. res \<noteq> Inr (Some t)"
    and "\<forall>a n. track_seen rows2 u a n = track_seen rows u a n"
  shows "scan_tracks u today ts rows2 = (res, rows2)"
  using assms
proof (induction ts)
  case Nil
  then show ?case by auto
next
  case (Cons t ts)
  show ?case
  proof (cases "track_fields t")
    case (Inl err)
    with Cons.prems show ?thesis by auto
  next
    case (Inr an)
    obtain a n where an: "an = (a, n)" by (cases an)
    show ?thesis
    proof (cases "fits_int64 u")
      case False
      with Cons.prems Inr an show ?thesis by auto
    next
    case fits: True
    show ?thesis
    proof (cases "adapt a")
      case (Inl err)
      with Cons.prems Inr an fits show ?thesis by auto
    next
      case sa: (Inr sa)
      show ?thesis
      proof (cases "adapt n")
        case (Inl err)
        with Cons.prems Inr an sa fits show ?thesis by auto
      next
        case sn: (Inr sn)
        show ?thesis
        proof (cases "track_seen rows u sa sn")
          case True
          with Cons.prems Inr an sa sn fits
          have "scan_tracks u today ts rows = (res, rows')" by simp
          from Cons.IH[OF this Cons.prems(2) Cons.prems(3)] True Cons.prems(3) Inr an sa sn fits
          show ?thesis by simp
        next
          case False
          show ?thesis
          proof (cases "insert_track rows u today sa sn")
            case (Inl err)
            from insert_track_fail_cong[OF Inl False, of rows2]
            have "insert_track rows2 u today sa sn = Inl err" .
            with Cons.prems Inr an sa sn False Inl fits show ?thesis by simp
          next
            case (Inr rows1)
            with Cons.prems \<open>track_fields t = Inr an\<close> an sa sn False fits show ?thesis by auto
          qed
        qed
      qed
    qed
    qed
  qed
qed

lemma get_track_ranges_noop_cong:
  assumes "get_track_ranges s u today ps rows = (res, rows')"
    and "\<forall>t. res \<noteq> Inr (Some t)"
    and "\<forall>a n. track_seen rows2 u a n = track_seen rows u a n"
  shows "get_track_ranges s u today ps rows2 = (res, rows2)"
  using assms
proof (induction ps)
  case Nil
  then show ?case by auto
next
  case (Cons p ps)
  show ?case
  proof (cases "fetch_tracks (s p)")
    case (Inl err)
    with Cons.prems show ?thesis by auto
  next
    case ft: (Inr tr)
    show ?thesis
    proof (cases "iterate tr")
      case (Inl err)
      with ft Cons.prems show ?thesis by auto
    next
      case it: (Inr ts)
      obtain r1 rows1 where sc: "scan_tracks u today ts rows = (r1, rows1)" by force
      show ?thesis
      proof (cases "r1 = Inr None")
        case True
        from scan_tracks_rows[OF sc] True have r1: "rows1 = rows" by simp
        from scan_tracks_noop_cong[OF sc _ Cons.prems(3)] True
        have sc2: "scan_tracks u today ts rows2 = (Inr None, rows2)" by simp
        from Cons.prems(1) ft it sc True r1
        have "get_track_ranges s u today ps rows = (res, rows')" by simp
        from Cons.IH[OF this Cons.prems(2) Cons.prems(3)] ft it sc2
        show ?thesis by simp
      next
        case False
        with Cons.prems(1) ft it sc have eq: "res = r1" "rows' = rows1"
          by (auto split: sum.splits option.splits)
        from scan_tracks_noop_cong[OF sc _ Cons.prems(3)] eq Cons.prems(2)
        have sc2: "scan_tracks u today ts rows2 = (r1, rows2)" by simp
        with ft it False show ?thesis using eq
          by (auto split: sum.splits option.splits)
      qed
    qed
  qed
qed

section \<open>A sweep, one user at a time\<close>

lemma daily_task_users_step:
  "\<exists>st1. sweep_step today (discord_id r) st st1 \<and>
     (daily_task_users e today (r # rest) st = daily_task_users e today rest st1
      \<or> (\<exists>err. daily_task_users e today (r # rest) st = (st1, Some err)))"
proof (cases "delivered_today (tracks (s_db st)) (discord_id r) today")
  case True
  then have "daily_task_users e today (r # rest) st = daily_task_users e today rest st" by simp
  moreover have "sweep_step today (discord_id r) st st" by (simp add: sweep_step_def)
  ultimately show ?thesis by blast
next
  case False
  let ?u = "discord_id r"
  obtain res d' where g: "get_track (service e ?u) today (s_db st) ?u
        \<lparr>username = lfm_username r, api_key = lfm_api_key r\<rparr> = (res, d')" by force
  note fr = get_track_rows[OF g]
  show ?thesis
  proof (cases res)
    case (Inl err)
    with fr have d': "d' = s_db st" by simp
    let ?st1 = "st\<lparr>s_db := d', logged := logged st @ [(?u, err)]\<rparr>"
    have "daily_task_users e today (r # rest) st = daily_task_users e today rest ?st1"
      using False g Inl by simp
    moreover have "sweep_step today ?u st ?st1" using d' by (simp add: sweep_step_def)
    ultimately show ?thesis by blast
  next
    case (Inr ot)
    show ?thesis
    proof (cases ot)
      case None
      with fr Inr have d': "d' = s_db st" by simp
      let ?st1 = "st\<lparr>s_db := d'\<rparr>"
      have "daily_task_users e today (r # rest) st = daily_task_users e today rest ?st1"
        using False g Inr None by simp
      moreover have "sweep_step today ?u st ?st1" using d' by (simp add: sweep_step_def)
      ultimately show ?thesis by blast
    next
      case (Some t)
      with fr Inr obtain ta tn where
        us: "users d' = users (s_db st)" and
        tr: "tracks d' = tracks (s_db st) @ [\<lparr>user_id = ?u, date = today, track_artist = ta, track_name = tn\<rparr>]"
        by auto
      let ?look = "case get_user e ?u of Some usr \<Rightarrow> Inr (Some usr) | None \<Rightarrow> fetch_user e ?u"
      have s1: "sweep_step today ?u st (st\<lparr>s_db := d'\<rparr>)"
        using False us tr by (simp add: sweep_step_def)
      show ?thesis
      proof (cases ?look)
        case (Inl err)
        then have "daily_task_users e today (r # rest) st = (st\<lparr>s_db := d'\<rparr>, Some err)"
          using False g Inr Some by simp
        with s1 show ?thesis by blast
      next
        case (Inr ou)
        note look = this
        show ?thesis
        proof (cases ou)
          case None
          then have "daily_task_users e today (r # rest) st = daily_task_users e today rest (st\<lparr>s_db := d'\<rparr>)"
            using False g \<open>res = Inr ot\<close> Some look by simp
          with s1 show ?thesis by blast
        next
          case (Some usr)
          note usr = this
          show ?thesis
          proof (cases "webhook_send e usr t")
            case None
            let ?st1 = "st\<lparr>s_db := d', sent := sent st @ [(?u, usr, t)]\<rparr>"
            have "daily_task_users e today (r # rest) st = daily_task_users e today rest ?st1"
              using False g \<open>res = Inr ot\<close> \<open>ot = Some t\<close> look usr None by simp
            moreover have "sweep_step today ?u st ?st1"
              using False us tr by (simp add: sweep_step_def)
            ultimately show ?thesis by blast
          next
            case (Some err)
            then have "daily_task_users e today (r # rest) st = (st\<lparr>s_db := d'\<rparr>, Some err)"
              using False g \<open>res = Inr ot\<close> \<open>ot = Some t\<close> look usr by simp
            with s1 show ?thesis by blast
          qed
        qed
      qed
    qed
  qed
qed

lemma daily_task_users_reaches:
  "daily_task_users e today us st = (st', out) \<Longrightarrow> reaches today st st'"
proof (induction us arbitrary: st)
  case Nil
  then show ?case by (simp add: reaches_refl)
next
  case (Cons r rest)
  from daily_task_users_step[of today r st e rest]
  obtain st1 where s: "sweep_step today (discord_id r) st st1"
    and alt: "daily_task_users e today (r # rest) st = daily_task_users e today rest st1
      \<or> (\<exists>err. daily_task_users e today (r # rest) st = (st1, Some err))" by blast
  from alt show ?case
  proof
    assume "daily_task_users e today (r # rest) st = daily_task_users e today rest st1"
    with Cons.prems have "daily_task_users e today rest st1 = (st', out)" by simp
    from Cons.IH[OF this] s show ?thesis by (rule reaches_step[rotated])
  next
    assume "\<exists>err. daily_task_users e today (r # rest) st = (st1, Some err)"
    with Cons.prems have "st' = st1" by auto
    with s show ?thesis by (auto intro: reaches_step reaches_refl)
  qed
qed

lemma delivered_today_rows: "delivered_today (tracks (s_db st)) u today \<longleftrightarrow> 0 < rows_today u today st"
  by (auto simp: delivered_today_def rows_today_def list_ex_iff filter_empty_conv)

lemma sweep_step_caps:
  assumes "sweep_step today v st st1"
  shows "rows_today u today st \<le> rows_today u today st1
    \<and> rows_today u today st1 \<le> max 1 (rows_today u today st)
    \<and> sent_to u st \<le> sent_to u st1
    \<and> sent_to u st1 + rows_today u today st \<le> sent_to u st + rows_today u today st1
    \<and> users (s_db st1) = users (s_db st)
    \<and> (\<exists>new. tracks (s_db st1) = tracks (s_db st) @ new \<and> list_all (\<lambda>r. date r = today) new)"
  using assms
  by (auto simp: sweep_step_def rows_today_def sent_to_def delivered_today_def list_ex_iff filter_empty_conv)

lemma reaches_caps:
  assumes "reaches today st st'"
  shows "rows_today u today st \<le> rows_today u today st'
    \<and> rows_today u today st' \<le> max 1 (rows_today u today st)
    \<and> sent_to u st \<le> sent_to u st'
    \<and> sent_to u st' + rows_today u today st \<le> sent_to u st + rows_today u today st'
    \<and> users (s_db st') = users (s_db st)
    \<and> (\<exists>new. tracks (s_db st') = tracks (s_db st) @ new \<and> list_all (\<lambda>r. date r = today) new)"
  using assms
proof (induction rule: reaches.induct)
  case (reaches_refl st)
  then show ?case by simp
next
  case (reaches_step v st st1 st2)
  note c = sweep_step_caps[OF reaches_step.hyps(1), of u]
  from c obtain n1 where n1: "tracks (s_db st1) = tracks (s_db st) @ n1" "list_all (\<lambda>r. date r = today) n1" by blast
  from reaches_step.IH obtain n2 where n2: "tracks (s_db st2) = tracks (s_db st1) @ n2" "list_all (\<lambda>r. date r = today) n2" by blast
  have "tracks (s_db st2) = tracks (s_db st) @ (n1 @ n2) \<and> list_all (\<lambda>r. date r = today) (n1 @ n2)"
    using n1 n2 by simp
  then have ex: "\<exists>new. tracks (s_db st2) = tracks (s_db st) @ new \<and> list_all (\<lambda>r. date r = today) new" by blast
  from c reaches_step.IH ex show ?case by (simp add: max_def split: if_splits)
qed

lemma daily_task_reaches:
  "reaches today \<lparr>s_db = d, sent = [], logged = []\<rparr> (fst (daily_task e today d))"
proof -
  obtain st' out where r: "daily_task_users e today (users d) \<lparr>s_db = d, sent = [], logged = []\<rparr> = (st', out)"
    by force
  from daily_task_users_reaches[OF r] r show ?thesis by (simp add: daily_task_def)
qed

lemma daily_task_prefix: "prefix (tracks d) (tracks (s_db (fst (daily_task e today d))))"
  using reaches_caps[OF daily_task_reaches[of today d e], of 0]
  by (auto simp: prefix_def)

lemma on_submit_tracks: "tracks (on_submit d u un key) = tracks d"
  by (simp add: on_submit_def)

lemma run_prefix: "prefix (tracks (s_db st)) (tracks (s_db (run evs st)))"
proof (induction evs arbitrary: st)
  case Nil
  then show ?case by simp
next
  case (Cons ev evs)
  show ?case
  proof (cases ev)
    case (Fire e today)
    let ?st1 = "fst (daily_task e today (s_db st))"
    let ?st2 = "\<lparr>s_db = s_db ?st1, sent = sent st @ sent ?st1, logged = logged st @ logged ?st1\<rparr>"
    have "prefix (tracks (s_db st)) (tracks (s_db ?st2))"
      using daily_task_prefix[of "s_db st" e today] by simp
    moreover have "prefix (tracks (s_db ?st2)) (tracks (s_db (run evs ?st2)))"
      by (rule Cons.IH)
    ultimately have "prefix (tracks (s_db st)) (tracks (s_db (run evs ?st2)))"
      by (rule prefix_order.trans)
    then show ?thesis using Fire by (simp add: Let_def)
  next
    case (Register u un key)
    let ?st2 = "st\<lparr>s_db := on_submit (s_db st) u un key\<rparr>"
    have "prefix (tracks (s_db ?st2)) (tracks (s_db (run evs ?st2)))"
      by (rule Cons.IH)
    then show ?thesis using Register by (simp add: on_submit_tracks)
  qed
qed

lemma run_caps:
  "fires_on today evs \<Longrightarrow>
     rows_today u today st \<le> rows_today u today (run evs st)
     \<and> rows_today u today (run evs st) \<le> max 1 (rows_today u today st)
     \<and> sent_to u st \<le> sent_to u (run evs st)
     \<and> sent_to u (run evs st) + rows_today u today st
         \<le> sent_to u st + rows_today u today (run evs st)"
proof (induction evs arbitrary: st)
  case Nil
  then show ?case by simp
next
  case (Cons ev evs)
  from Cons.prems have rest: "fires_on today evs" by (simp add: fires_on_def)
  show ?case
  proof (cases ev)
    case (Fire e d)
    with Cons.prems have d: "d = today" by (simp add: fires_on_def)
    let ?st0 = "\<lparr>s_db = s_db st, sent = [], logged = []\<rparr>"
    let ?st1 = "fst (daily_task e today (s_db st))"
    let ?st2 = "\<lparr>s_db = s_db ?st1, sent = sent st @ sent ?st1, logged = logged st @ logged ?st1\<rparr>"
    note c = reaches_caps[OF daily_task_reaches[of today "s_db st" e], of u]
    have r0: "rows_today u today ?st0 = rows_today u today st" by (simp add: rows_today_def)
    have s0: "sent_to u ?st0 = 0" by (simp add: sent_to_def)
    have r2: "rows_today u today ?st2 = rows_today u today ?st1" by (simp add: rows_today_def)
    have s2: "sent_to u ?st2 = sent_to u st + sent_to u ?st1" by (simp add: sent_to_def)
    have run: "run (ev # evs) st = run evs ?st2" using Fire d by (simp add: Let_def)
    note ih = Cons.IH[OF rest, of ?st2]
    from c r0 s0 r2 s2 ih show ?thesis unfolding run
      by (simp add: max_def split: if_splits)
  next
    case (Register v un key)
    let ?st2 = "st\<lparr>s_db := on_submit (s_db st) v un key\<rparr>"
    have r2: "rows_today u today ?st2 = rows_today u today st"
      by (simp add: rows_today_def on_submit_tracks)
    have s2: "sent_to u ?st2 = sent_to u st" by (simp add: sent_to_def)
    have run: "run (ev # evs) st = run evs ?st2" using Register by simp
    from Cons.IH[OF rest, of ?st2] r2 s2 show ?thesis unfolding run by simp
  qed
qed

lemma daily_task_users_failure_continues:
  assumes "\<not> delivered_today (tracks (s_db st)) (discord_id r) today"
    and "fst (get_track (service e (discord_id r)) today (s_db st) (discord_id r)
             \<lparr>username = lfm_username r, api_key = lfm_api_key r\<rparr>) = Inl err"
  shows "daily_task_users e today (r # rest) st
         = daily_task_users e today rest (st\<lparr>logged := logged st @ [(discord_id r, err)]\<rparr>)"
proof -
  obtain res d' where g: "get_track (service e (discord_id r)) today (s_db st) (discord_id r)
             \<lparr>username = lfm_username r, api_key = lfm_api_key r\<rparr> = (res, d')" by force
  with assms(2) have res: "res = Inl err" by simp
  from get_track_rows[OF g] res have "d' = s_db st" by simp
  with assms(1) g res show ?thesis by simp
qed

lemma daily_task_users_all_delivered:
  "list_all (\<lambda>r. delivered_today (tracks (s_db st)) (discord_id r) today) us
     \<Longrightarrow> daily_task_users e today us st = (st, None)"
  by (induction us) simp_all

section \<open>A second sweep\<close>

lemma settled_step:
  assumes "sweep_step today v st st1" and "settled e today (tracks (s_db st)) r"
  shows "settled e today (tracks (s_db st1)) r"
proof (cases "tracks (s_db st1) = tracks (s_db st)")
  case True
  with assms(2) show ?thesis by simp
next
  case False
  with assms(1) obtain ta tn where
    tr: "tracks (s_db st1) = tracks (s_db st)
          @ [\<lparr>user_id = v, date = today, track_artist = ta, track_name = tn\<rparr>]"
    by (auto simp: sweep_step_def)
  show ?thesis
  proof (cases "v = discord_id r")
    case True
    with tr show ?thesis by (simp add: settled_def delivered_today_def)
  next
    case other: False
    from assms(2) show ?thesis unfolding settled_def
    proof
      assume "delivered_today (tracks (s_db st)) (discord_id r) today"
      with tr have "delivered_today (tracks (s_db st1)) (discord_id r) today"
        by (simp add: delivered_today_def)
      then show "delivered_today (tracks (s_db st1)) (discord_id r) today \<or>
        (\<exists>res. get_track_ranges (service e (discord_id r)
                    \<lparr>username = lfm_username r, api_key = lfm_api_key r\<rparr>)
                  (discord_id r) today TIME_RANGES (tracks (s_db st1)) = (res, tracks (s_db st1))
               \<and> (\<forall>t. res \<noteq> Inr (Some t)))" by simp
    next
      assume "\<exists>res. get_track_ranges (service e (discord_id r)
                    \<lparr>username = lfm_username r, api_key = lfm_api_key r\<rparr>)
                  (discord_id r) today TIME_RANGES (tracks (s_db st)) = (res, tracks (s_db st))
               \<and> (\<forall>t. res \<noteq> Inr (Some t))"
      then obtain res where
        g: "get_track_ranges (service e (discord_id r)
                    \<lparr>username = lfm_username r, api_key = lfm_api_key r\<rparr>)
                  (discord_id r) today TIME_RANGES (tracks (s_db st)) = (res, tracks (s_db st))"
        and ns: "\<forall>t. res \<noteq> Inr (Some t)" by blast
      have same: "\<forall>a n. track_seen (tracks (s_db st1)) (discord_id r) a n
                       = track_seen (tracks (s_db st)) (discord_id r) a n"
        using tr other by (simp add: track_seen_append_other)
      from get_track_ranges_noop_cong[OF g ns same]
      show "delivered_today (tracks (s_db st1)) (discord_id r) today \<or>
        (\<exists>res. get_track_ranges (service e (discord_id r)
                    \<lparr>username = lfm_username r, api_key = lfm_api_key r\<rparr>)
                  (discord_id r) today TIME_RANGES (tracks (s_db st1)) = (res, tracks (s_db st1))
               \<and> (\<forall>t. res \<noteq> Inr (Some t)))"
        using ns by blast
    qed
  qed
qed

lemma settled_reaches:
  "reaches today st st' \<Longrightarrow> settled e today (tracks (s_db st)) r
     \<Longrightarrow> settled e today (tracks (s_db st')) r"
  by (induction rule: reaches.induct) (auto intro: settled_step)

lemma daily_task_users_head_settled:
  assumes run: "daily_task_users e today (r # rest) st = (st', None)"
  shows "\<exists>st1. daily_task_users e today rest st1 = (st', None)
           \<and> settled e today (tracks (s_db st1)) r"
proof (cases "delivered_today (tracks (s_db st)) (discord_id r) today")
  case True
  with run have "daily_task_users e today rest st = (st', None)" by simp
  moreover from True have "settled e today (tracks (s_db st)) r" by (simp add: settled_def)
  ultimately show ?thesis by blast
next
  case False
  let ?u = "discord_id r"
  let ?c = "\<lparr>username = lfm_username r, api_key = lfm_api_key r\<rparr>"
  obtain res d' where g: "get_track (service e ?u) today (s_db st) ?u ?c = (res, d')" by force
  note fr = get_track_rows[OF g]
  note gr = get_track_ranges_of[OF g]
  show ?thesis
  proof (cases "\<exists>t. res = Inr (Some t)")
    case no: False
    with fr have d': "d' = s_db st" by (auto split: sum.splits option.splits)
    from gr d' no have st: "settled e today (tracks (s_db st)) r"
      unfolding settled_def by auto
    show ?thesis
    proof (cases res)
      case (Inl err)
      let ?st1 = "st\<lparr>s_db := d', logged := logged st @ [(?u, err)]\<rparr>"
      from run False g Inl have "daily_task_users e today rest ?st1 = (st', None)" by simp
      moreover from st d' have "settled e today (tracks (s_db ?st1)) r" by simp
      ultimately show ?thesis by blast
    next
      case (Inr ot)
      with no have "ot = None" by (cases ot) auto
      with run False g Inr have "daily_task_users e today rest (st\<lparr>s_db := d'\<rparr>) = (st', None)"
        by simp
      moreover from st d' have "settled e today (tracks (s_db (st\<lparr>s_db := d'\<rparr>))) r" by simp
      ultimately show ?thesis by blast
    qed
  next
    case True
    then obtain t where res: "res = Inr (Some t)" by blast
    with fr obtain ta tn where
      tr: "tracks d' = tracks (s_db st)
             @ [\<lparr>user_id = ?u, date = today, track_artist = ta, track_name = tn\<rparr>]"
      by auto
    then have del: "delivered_today (tracks d') ?u today" by (simp add: delivered_today_def)
    let ?look = "case get_user e ?u of Some usr \<Rightarrow> Inr (Some usr) | None \<Rightarrow> fetch_user e ?u"
    show ?thesis
    proof (cases ?look)
      case (Inl err)
      with run False g res show ?thesis by simp
    next
      case look: (Inr ou)
      show ?thesis
      proof (cases ou)
        case None
        with run False g res look
        have "daily_task_users e today rest (st\<lparr>s_db := d'\<rparr>) = (st', None)" by simp
        moreover from del have "settled e today (tracks (s_db (st\<lparr>s_db := d'\<rparr>))) r"
          by (simp add: settled_def)
        ultimately show ?thesis by blast
      next
        case usr: (Some usr)
        show ?thesis
        proof (cases "webhook_send e usr t")
          case None
          let ?st1 = "st\<lparr>s_db := d', sent := sent st @ [(?u, usr, t)]\<rparr>"
          from run False g res look usr None
          have "daily_task_users e today rest ?st1 = (st', None)" by simp
          moreover from del have "settled e today (tracks (s_db ?st1)) r"
            by (simp add: settled_def)
          ultimately show ?thesis by blast
        next
          case (Some err)
          with run False g res look usr show ?thesis by simp
        qed
      qed
    qed
  qed
qed

lemma sweep_settles:
  "daily_task_users e today us st = (st', None)
     \<Longrightarrow> list_all (settled e today (tracks (s_db st'))) us"
proof (induction us arbitrary: st)
  case Nil
  then show ?case by simp
next
  case (Cons r rest)
  from daily_task_users_head_settled[OF Cons.prems]
  obtain st1 where r1: "daily_task_users e today rest st1 = (st', None)"
    and s1: "settled e today (tracks (s_db st1)) r" by blast
  from Cons.IH[OF r1] have "list_all (settled e today (tracks (s_db st'))) rest" .
  moreover from settled_reaches[OF daily_task_users_reaches[OF r1] s1]
  have "settled e today (tracks (s_db st')) r" .
  ultimately show ?case by simp
qed

lemma rerun_noop:
  "list_all (settled e today (tracks (s_db st))) us
     \<Longrightarrow> \<exists>lg. daily_task_users e today us st = (st\<lparr>logged := lg\<rparr>, None)"
proof (induction us arbitrary: st)
  case Nil
  have "daily_task_users e today [] st = (st\<lparr>logged := logged st\<rparr>, None)" by simp
  then show ?case by blast
next
  case (Cons r rest)
  let ?u = "discord_id r"
  let ?c = "\<lparr>username = lfm_username r, api_key = lfm_api_key r\<rparr>"
  from Cons.prems have sr: "settled e today (tracks (s_db st)) r"
    and srest: "list_all (settled e today (tracks (s_db st))) rest" by simp_all
  show ?case
  proof (cases "delivered_today (tracks (s_db st)) ?u today")
    case True
    from Cons.IH[OF srest] True show ?thesis by simp
  next
    case False
    with sr obtain res where
      g: "get_track_ranges (service e ?u ?c) ?u today TIME_RANGES (tracks (s_db st))
            = (res, tracks (s_db st))"
      and ns: "\<forall>t. res \<noteq> Inr (Some t)"
      unfolding settled_def by blast
    from get_track_of_ranges[of "service e ?u" ?c ?u today "s_db st" res] g
    have gt: "get_track (service e ?u) today (s_db st) ?u ?c = (res, s_db st)" by simp
    show ?thesis
    proof (cases res)
      case (Inl err)
      let ?st2 = "st\<lparr>logged := logged st @ [(?u, err)]\<rparr>"
      have step: "daily_task_users e today (r # rest) st = daily_task_users e today rest ?st2"
        using False gt Inl by simp
      from srest have "list_all (settled e today (tracks (s_db ?st2))) rest" by simp
      from Cons.IH[OF this] obtain lg where
        "daily_task_users e today rest ?st2 = (?st2\<lparr>logged := lg\<rparr>, None)" by blast
      with step have "daily_task_users e today (r # rest) st = (st\<lparr>logged := lg\<rparr>, None)"
        by simp
      then show ?thesis by blast
    next
      case (Inr ot)
      with ns have "ot = None" by (cases ot) auto
      with False gt Inr
      have "daily_task_users e today (r # rest) st = daily_task_users e today rest st" by simp
      with Cons.IH[OF srest] show ?thesis by simp
    qed
  qed
qed

lemma daily_task_rerun:
  assumes "daily_task e today d = (st1, None)"
  shows "\<exists>lg. daily_task e today (s_db st1) = (\<lparr>s_db = s_db st1, sent = [], logged = lg\<rparr>, None)"
proof -
  let ?st0 = "\<lparr>s_db = d, sent = [], logged = []\<rparr>"
  from assms have r: "daily_task_users e today (users d) ?st0 = (st1, None)"
    by (simp add: daily_task_def)
  from reaches_caps[OF daily_task_users_reaches[OF r], of 0]
  have us: "users (s_db st1) = users d" by simp
  let ?st2 = "\<lparr>s_db = s_db st1, sent = [], logged = []\<rparr>"
  from sweep_settles[OF r] have "list_all (settled e today (tracks (s_db ?st2))) (users d)" by simp
  from rerun_noop[OF this] obtain lg where
    "daily_task_users e today (users d) ?st2 = (?st2\<lparr>logged := lg\<rparr>, None)" by blast
  with us show ?thesis by (auto simp: daily_task_def)
qed

section \<open>The stored credentials\<close>

text \<open>
  For an id that the statement binds, \<open>get_credentials\<close> answers \<open>None\<close> exactly for
  a user with no row in \<open>users\<close>; it raises nothing then.
\<close>

lemma get_credentials_None:
  assumes "fits_int64 u"
  shows "get_credentials d u = Inr None \<longleftrightarrow> u \<notin> discord_id ` set (users d)"
proof (cases "filter (\<lambda>r. discord_id r = u) (users d)")
  case Nil
  with assms show ?thesis
    by (auto simp: get_credentials_def filter_empty_conv)
next
  case (Cons r rs)
  then have "r \<in> set (filter (\<lambda>r. discord_id r = u) (users d))" by simp
  then have "u \<in> discord_id ` set (users d)" by auto
  with Cons assms show ?thesis by (simp add: get_credentials_def)
qed

section \<open>The examples evaluated\<close>

lemma fits_int64_small: "fits_int64 1" "fits_int64 2"
  by (simp_all add: fits_int64_def)

lemma row_XA_sel: "user_id (row_XA u) = u" "date (row_XA u) = ''2024-05-02''"
  by (simp_all add: row_XA_def)

lemma get_track_XA:
  "fits_int64 u \<Longrightarrow>
   get_track (\<lambda>c p. top_tracks [track_json ''X'' ''A'']) ''2024-05-02'' \<lparr>users = us, tracks = []\<rparr> u c
     = (Inr (Some track_XA), \<lparr>users = us, tracks = [row_XA u]\<rparr>)"
  by (simp add: get_track_def TIME_RANGES_def fetch_tracks_def top_tracks_def track_json_def
      track_fields_def track_seen_def insert_track_def row_XA_def track_XA_def)

lemma get_track_XA_2:
  "get_track (\<lambda>c p. top_tracks [track_json ''X'' ''A'']) ''2024-05-02'' \<lparr>users = us, tracks = [row_XA 1]\<rparr> 2 c
     = (Inr (Some track_XA), \<lparr>users = us, tracks = [row_XA 1, row_XA 2]\<rparr>)"
  by (simp add: get_track_def TIME_RANGES_def fetch_tracks_def top_tracks_def track_json_def
      track_fields_def track_seen_def insert_track_def row_XA_def track_XA_def fits_int64_def)

lemma get_track_failing:
  "get_track failing_service today d u c = (Inl (APIError (JStr ''User not found'')), d)"
  by (simp add: get_track_def TIME_RANGES_def fetch_tracks_def failing_service_def not_found_def)

section \<open>The claims\<close>

subsection \<open>C1: the first unseen track in priority order\<close>

text \<open>
  C1. For a user whose id fits the 64 bits of the database, let the ranges before \<open>p\<close>
  in \<open>TIME_RANGES\<close> all be fetched and hold seen tracks only, and let the list fetched
  for \<open>p\<close> hold seen tracks only before its entry \<open>t\<close>, a track with no row in the
  ledger of the user. Then \<open>get_track\<close> returns \<open>t\<close> and
  appends to the ledger the one row of \<open>t\<close> for this user dated \<open>today\<close>. Nothing is
  assumed of the entries after \<open>t\<close> or of the ranges after \<open>p\<close>: they are not examined.
\<close>

theorem get_track_first_unseen:
  assumes fits: "fits_int64 u"
    and ranges: "TIME_RANGES = pre @ p # post"
    and before: "list_all (range_all_seen (svc c) (tracks d) u) pre"
    and here: "range_tracks (svc c p) = Some (old @ t # later)"
    and old: "list_all (seen_track (tracks d) u) old"
    and t: "track_fields t = Inr (a, n)" "track_text a = Some ta" "track_text n = Some tn"
    and unseen: "\<not> key_in_ledger (tracks d) u ta tn"
  shows "get_track svc today d u c
         = (Inr (Some \<lparr>artist = a, name = n\<rparr>),
            d\<lparr>tracks := tracks d
                 @ [\<lparr>user_id = u, date = today, track_artist = ta, track_name = tn\<rparr>]\<rparr>)"
proof -
  let ?rows = "tracks d"
  let ?row = "\<lparr>user_id = u, date = today, track_artist = ta, track_name = tn\<rparr>"
  from range_tracks_Some[OF here] obtain tr where
    f: "fetch_tracks (svc c p) = Inr tr" "iterate tr = Inr (old @ t # later)" by blast
  have "scan_tracks u today (old @ t # later) ?rows = scan_tracks u today (t # later) ?rows"
    by (rule scan_tracks_all_seen[OF old])
  also have "\<dots> = (Inr (Some \<lparr>artist = a, name = n\<rparr>), ?rows @ [?row])"
    by (rule scan_tracks_unseen_head[OF fits t unseen])
  finally have sc: "scan_tracks u today (old @ t # later) ?rows
                     = (Inr (Some \<lparr>artist = a, name = n\<rparr>), ?rows @ [?row])" .
  have "get_track_ranges (svc c) u today (pre @ p # post) ?rows
          = get_track_ranges (svc c) u today (p # post) ?rows"
    by (rule get_track_ranges_all_seen[OF before])
  also have "\<dots> = (Inr (Some \<lparr>artist = a, name = n\<rparr>), ?rows @ [?row])"
    using f sc by simp
  finally show ?thesis using ranges by (simp add: get_track_def)
qed

text \<open>
  The hypotheses hold for a user who has seen X - A, when the week holds X - A alone and
  the month X - A, Y - C, Z - D: the call returns Y - C. The later ranges answer with
  status 500 and are never requested.
\<close>

theorem get_track_first_unseen_witness:
  "fits_int64 1
   \<and> TIME_RANGES = [''7day''] @ ''1month'' # [''3month'', ''6month'', ''12month'', ''overall'']
   \<and> list_all (range_all_seen (svc_next ann) (tracks db_seen) 1) [''7day'']
   \<and> range_tracks (svc_next ann ''1month'')
       = Some ([track_json ''X'' ''A''] @ track_json ''Y'' ''C'' # [track_json ''Z'' ''D''])
   \<and> list_all (seen_track (tracks db_seen) 1) [track_json ''X'' ''A'']
   \<and> \<not> key_in_ledger (tracks db_seen) 1 ''Y'' ''C''
   \<and> get_track svc_next ''2024-05-02'' db_seen 1 ann
       = (Inr (Some \<lparr>artist = JStr ''Y'', name = JStr ''C''\<rparr>),
          db_seen\<lparr>tracks := tracks db_seen
             @ [\<lparr>user_id = 1, date = ''2024-05-02'', track_artist = ''Y'', track_name = ''C''\<rparr>]\<rparr>)"
proof -
  have h0: "fits_int64 1" by (simp add: fits_int64_def)
  have rt7: "range_tracks (svc_next ann ''7day'') = Some [track_json ''X'' ''A'']"
    by (simp add: range_tracks_def svc_next_def top_tracks_def fetch_tracks_def)
  have seenA: "seen_track (tracks db_seen) 1 (track_json ''X'' ''A'')"
    by (simp add: seen_track_def track_json_def track_fields_def track_text_def
        key_in_ledger_def db_seen_def fits_int64_def)
  have h1: "TIME_RANGES = [''7day''] @ ''1month'' # [''3month'', ''6month'', ''12month'', ''overall'']"
    by (simp add: TIME_RANGES_def)
  have h2: "list_all (range_all_seen (svc_next ann) (tracks db_seen) 1) [''7day'']"
    using rt7 seenA by (simp add: range_all_seen_def)
  have h3: "range_tracks (svc_next ann ''1month'')
       = Some ([track_json ''X'' ''A''] @ track_json ''Y'' ''C'' # [track_json ''Z'' ''D''])"
    by (simp add: range_tracks_def svc_next_def top_tracks_def fetch_tracks_def)
  have h4: "list_all (seen_track (tracks db_seen) 1) [track_json ''X'' ''A'']"
    using seenA by simp
  have h5: "track_fields (track_json ''Y'' ''C'') = Inr (JStr ''Y'', JStr ''C'')"
    by (simp add: track_json_def track_fields_def)
  have h6: "track_text (JStr ''Y'') = Some ''Y''" and h7: "track_text (JStr ''C'') = Some ''C''"
    by (simp_all add: track_text_def)
  have h8: "\<not> key_in_ledger (tracks db_seen) 1 ''Y'' ''C''"
    by (simp add: key_in_ledger_def db_seen_def)
  from get_track_first_unseen[where pre = "[''7day'']" and p = "''1month''"
      and post = "[''3month'', ''6month'', ''12month'', ''overall'']" and svc = svc_next
      and c = ann and d = db_seen and u = 1 and old = "[track_json ''X'' ''A'']"
      and t = "track_json ''Y'' ''C''" and later = "[track_json ''Z'' ''D'']"
      and a = "JStr ''Y''" and n = "JStr ''C''" and ta = "''Y''" and tn = "''C''"
      and today = "''2024-05-02''"] h0 h1 h2 h3 h4 h5 h6 h7 h8
  show ?thesis by simp
qed

subsection \<open>C2: no track is returned twice\<close>

text \<open>
  C2. Once the ledger has the row of a track for a user, \<open>get_track\<close> for this user never
  returns that track: not on these rows, and not on the rows after any sequence of
  sweeps and registrations, whatever the service answers and whatever the date.
\<close>

theorem no_duplicate_delivery:
  assumes "key_in_ledger (tracks (s_db st)) u ta tn"
    and "track_text (artist t) = Some ta" and "track_text (name t) = Some tn"
  shows "fst (get_track svc today (s_db (run evs st)) u c) \<noteq> Inr (Some t)"
proof
  let ?d = "s_db (run evs st)"
  assume "fst (get_track svc today ?d u c) = Inr (Some t)"
  then obtain d' where "get_track svc today ?d u c = (Inr (Some t), d')"
    by (cases "get_track svc today ?d u c") auto
  from get_track_ranges_fresh[OF get_track_ranges_of[OF this]] assms(2,3)
  have "\<not> key_in_ledger (tracks ?d) u ta tn" by auto
  moreover from key_in_ledger_prefix[OF run_prefix assms(1)]
  have "key_in_ledger (tracks ?d) u ta tn" .
  ultimately show False by simp
qed

theorem no_duplicate_delivery_witness:
  "key_in_ledger (tracks db_seen) 1 ''X'' ''A''
   \<and> track_text (artist track_XA) = Some ''X'' \<and> track_text (name track_XA) = Some ''A''
   \<and> fst (get_track svc_next ''2024-06-01''
            (s_db (run [Register 3 ''cy'' ''k3''] \<lparr>s_db = db_seen, sent = [], logged = []\<rparr>)) 1 ann)
       \<noteq> Inr (Some track_XA)
   \<and> fst (get_track svc_next ''2024-06-01''
            (s_db (run [Register 3 ''cy'' ''k3''] \<lparr>s_db = db_seen, sent = [], logged = []\<rparr>)) 1 ann)
       = Inr (Some \<lparr>artist = JStr ''Y'', name = JStr ''C''\<rparr>)"
proof -
  let ?st = "\<lparr>s_db = db_seen, sent = [], logged = []\<rparr>"
  have h1: "key_in_ledger (tracks (s_db ?st)) 1 ''X'' ''A''"
    by (simp add: key_in_ledger_def db_seen_def)
  have h2: "track_text (artist track_XA) = Some ''X''" and h3: "track_text (name track_XA) = Some ''A''"
    by (simp_all add: track_text_def track_XA_def)
  have ev: "fst (get_track svc_next ''2024-06-01'' (s_db (run [Register 3 ''cy'' ''k3''] ?st)) 1 ann)
       = Inr (Some \<lparr>artist = JStr ''Y'', name = JStr ''C''\<rparr>)"
    by (simp add: get_track_def TIME_RANGES_def svc_next_def top_tracks_def track_json_def
        fetch_tracks_def track_fields_def track_seen_def insert_track_def on_submit_def
        db_seen_def fits_int64_def)
  from no_duplicate_delivery[OF h1 h2 h3, of svc_next "''2024-06-01''" "[Register 3 ''cy'' ''k3'']" ann]
    h1 h2 h3 ev
  show ?thesis by simp
qed

subsection \<open>C3: one discovery a day\<close>

text \<open>
  C3. (1) When every registered user has a row dated today, a sweep of that day inserts
  no row, sends no message and logs nothing, whatever the world answers. (2) After a
  sweep that ran over all users, a second sweep on the same day in the same world
  inserts no row and sends no message. (3) The turn of a user with a row dated today is
  skipped. (4) Over any sequence of sweeps of one day and registrations, each user gets
  at most one new row dated that day, no more messages than new rows, and no new row
  when they had one of that day at the start.
\<close>

theorem daily_cap_and_rerun:
  "(list_all (\<lambda>r. delivered_today (tracks d) (discord_id r) today) (users d)
      \<longrightarrow> daily_task e' today d = (\<lparr>s_db = d, sent = [], logged = []\<rparr>, None))
   \<and> (daily_task e today d = (st1, None)
      \<longrightarrow> (\<exists>lg. daily_task e today (s_db st1)
                  = (\<lparr>s_db = s_db st1, sent = [], logged = lg\<rparr>, None)))
   \<and> (delivered_today (tracks (s_db st)) (discord_id r) today
      \<longrightarrow> daily_task_users e today (r # rest) st = daily_task_users e today rest st)
   \<and> (fires_on today evs
      \<longrightarrow> (\<exists>k\<le>1. rows_today u today (run evs st) = rows_today u today st + k
                 \<and> sent_to u (run evs st) \<le> sent_to u st + k
                 \<and> (delivered_today (tracks (s_db st)) u today \<longrightarrow> k = 0)))"
proof (intro conjI impI)
  assume "list_all (\<lambda>r. delivered_today (tracks d) (discord_id r) today) (users d)"
  then show "daily_task e' today d = (\<lparr>s_db = d, sent = [], logged = []\<rparr>, None)"
    using daily_task_users_all_delivered[of "\<lparr>s_db = d, sent = [], logged = []\<rparr>" today "users d" e']
    by (simp add: daily_task_def)
next
  assume "daily_task e today d = (st1, None)"
  then show "\<exists>lg. daily_task e today (s_db st1)
                  = (\<lparr>s_db = s_db st1, sent = [], logged = lg\<rparr>, None)"
    by (rule daily_task_rerun)
next
  assume "delivered_today (tracks (s_db st)) (discord_id r) today"
  then show "daily_task_users e today (r # rest) st = daily_task_users e today rest st"
    by simp
next
  assume f: "fires_on today evs"
  let ?k = "rows_today u today (run evs st) - rows_today u today st"
  note c = run_caps[OF f, of u st]
  have "?k \<le> 1" using c by linarith
  moreover have "rows_today u today (run evs st) = rows_today u today st + ?k" using c by linarith
  moreover have "sent_to u (run evs st) \<le> sent_to u st + ?k" using c by linarith
  moreover have "delivered_today (tracks (s_db st)) u today \<longrightarrow> ?k = 0"
    using c unfolding delivered_today_rows by linarith
  ultimately show "\<exists>k\<le>1. rows_today u today (run evs st) = rows_today u today st + k
                 \<and> sent_to u (run evs st) \<le> sent_to u st + k
                 \<and> (delivered_today (tracks (s_db st)) u today \<longrightarrow> k = 0)"
    by blast
qed

theorem daily_cap_and_rerun_witness:
  "daily_task env_ok ''2024-05-02'' db2 = (swept, None)
   \<and> list_all (\<lambda>r. delivered_today (tracks (s_db swept)) (discord_id r) ''2024-05-02'')
        (users (s_db swept))
   \<and> daily_task env_service_fails ''2024-05-02'' (s_db swept)
       = (\<lparr>s_db = s_db swept, sent = [], logged = []\<rparr>, None)
   \<and> (\<exists>lg. daily_task env_ok ''2024-05-02'' (s_db swept)
             = (\<lparr>s_db = s_db swept, sent = [], logged = lg\<rparr>, None))
   \<and> daily_task_users env_ok ''2024-05-02'' [ann_row, bob_row] swept
       = daily_task_users env_ok ''2024-05-02'' [bob_row] swept
   \<and> fires_on ''2024-05-02''
        [Fire env_ok ''2024-05-02'', Register 3 ''cy'' ''k3'', Fire env_ok ''2024-05-02'']
   \<and> (\<exists>k\<le>1. rows_today 1 ''2024-05-02''
                 (run [Fire env_ok ''2024-05-02'', Register 3 ''cy'' ''k3'',
                       Fire env_ok ''2024-05-02'']
                    \<lparr>s_db = db2, sent = [], logged = []\<rparr>)
               = rows_today 1 ''2024-05-02'' \<lparr>s_db = db2, sent = [], logged = []\<rparr> + k
             \<and> sent_to 1 (run [Fire env_ok ''2024-05-02'', Register 3 ''cy'' ''k3'',
                               Fire env_ok ''2024-05-02'']
                    \<lparr>s_db = db2, sent = [], logged = []\<rparr>)
               \<le> sent_to 1 \<lparr>s_db = db2, sent = [], logged = []\<rparr> + k)"
proof -
  let ?today = "''2024-05-02''"
  let ?evs = "[Fire env_ok ?today, Register 3 ''cy'' ''k3'', Fire env_ok ?today]"
  let ?st0 = "\<lparr>s_db = db2, sent = [], logged = []\<rparr>"
  have h1: "daily_task env_ok ?today db2 = (swept, None)"
    by (simp add: daily_task_def db2_def env_ok_def ann_row_def bob_row_def delivered_today_def
        get_track_XA get_track_XA_2 row_XA_sel swept_def fits_int64_small)
  have h2: "delivered_today (tracks (s_db swept)) (discord_id ann_row) ?today"
    by (simp add: swept_def delivered_today_def row_XA_sel ann_row_def)
  have h3: "fires_on ?today ?evs"
    by (simp add: fires_on_def)
  have h4: "list_all (\<lambda>r. delivered_today (tracks (s_db swept)) (discord_id r) ?today)
        (users (s_db swept))"
    by (simp add: swept_def delivered_today_def row_XA_sel ann_row_def bob_row_def)
  note t = daily_cap_and_rerun[where e = env_ok and e' = env_service_fails and today = ?today
      and d = "s_db swept" and st = swept and r = ann_row and rest = "[bob_row]"
      and evs = ?evs and u = 1]
  note t0 = daily_cap_and_rerun[where e = env_ok and today = ?today and d = db2
      and ?st1.0 = swept and st = ?st0 and evs = ?evs and u = 1]
  from t h4 have c0: "daily_task env_service_fails ?today (s_db swept)
       = (\<lparr>s_db = s_db swept, sent = [], logged = []\<rparr>, None)" by blast
  from t0 h1 have c1: "\<exists>lg. daily_task env_ok ?today (s_db swept)
             = (\<lparr>s_db = s_db swept, sent = [], logged = lg\<rparr>, None)" by blast
  from t h2 have c2: "daily_task_users env_ok ?today [ann_row, bob_row] swept
       = daily_task_users env_ok ?today [bob_row] swept" by blast
  from t0 h3 have c3: "\<exists>k\<le>1. rows_today 1 ?today (run ?evs ?st0) = rows_today 1 ?today ?st0 + k
             \<and> sent_to 1 (run ?evs ?st0) \<le> sent_to 1 ?st0 + k" by blast
  from h1 h4 c0 c1 c2 h3 c3 show ?thesis by blast
qed

subsection \<open>C4: a failed discovery inserts nothing\<close>

text \<open>
  C4. A call of \<open>get_track\<close> that raises leaves the database as it was; and when every
  range answers with an error payload, the call raises what the fetch of the first
  range (\<open>7day\<close>) raises, with the database as it was.
\<close>

theorem get_track_failure_leaves_ledger:
  "(\<forall>err. fst (get_track svc today d u c) = Inl err
       \<longrightarrow> snd (get_track svc today d u c) = d)
   \<and> ((\<forall>p \<in> set TIME_RANGES. error_response (svc c p))
       \<longrightarrow> (\<exists>err. fetch_tracks (svc c ''7day'') = Inl err
              \<and> get_track svc today d u c = (Inl err, d)))"
proof (intro conjI allI impI)
  fix err
  assume f: "fst (get_track svc today d u c) = Inl err"
  obtain res d' where g: "get_track svc today d u c = (res, d')" by force
  from get_track_rows[OF g] f g show "snd (get_track svc today d u c) = d"
    by auto
next
  assume all: "\<forall>p \<in> set TIME_RANGES. error_response (svc c p)"
  then have "error_response (svc c ''7day'')"
    by (simp add: TIME_RANGES_def)
  then obtain err where e: "fetch_tracks (svc c ''7day'') = Inl err"
    using fetch_tracks_error_response by blast
  with get_track_first_range_fails[of svc c err today d u]
  show "\<exists>err. fetch_tracks (svc c ''7day'') = Inl err
              \<and> get_track svc today d u c = (Inl err, d)"
    by blast
qed

theorem get_track_failure_leaves_ledger_witness:
  "list_all (\<lambda>p. error_response (failing_service ann p)) TIME_RANGES
   \<and> get_track failing_service ''2024-05-02'' db_seen 1 ann
       = (Inl (APIError (JStr ''User not found'')), db_seen)
   \<and> fst (get_track failing_service ''2024-05-02'' db_seen 1 ann)
       = Inl (APIError (JStr ''User not found''))
   \<and> snd (get_track failing_service ''2024-05-02'' db_seen 1 ann) = db_seen"
proof -
  have h: "\<forall>p \<in> set TIME_RANGES. error_response (failing_service ann p)"
    by (simp add: error_response_def embeds_error_def failing_service_def not_found_def)
  have f: "fetch_tracks (failing_service ann ''7day'') = Inl (APIError (JStr ''User not found''))"
    by (simp add: fetch_tracks_def failing_service_def not_found_def)
  from get_track_failure_leaves_ledger[of failing_service "''2024-05-02''" db_seen 1 ann] h f
  show ?thesis by (auto simp: list_all_iff)
qed

subsection \<open>C5: when a fetch fails\<close>

text \<open>
  C5, as the code has it. A fetch (lines 80 to 86) whose request raises fails with that
  exception. A fetch whose request is answered fails exactly when the status is 400 or
  above, the body does not decode, the decoded payload embeds an error, or it has no
  \<open>toptracks.track\<close> member. Every such failure comes with a status that is not a
  success, a malformed response or an error payload, and is the error of the status,
  the error of the decoding, an \<open>APIError\<close> or the error of a lookup. A status of 400 or
  above raises the error of the status. When the status is below 400 and the payload
  has an \<open>error\<close> and a \<open>message\<close>, the fetch raises the \<open>APIError\<close> built from that
  message, whose text ends with the message when it is a string.
\<close>

theorem fetch_tracks_fails_iff:
  "fetch_tracks (Inl e) = Inl e
   \<and> ((\<exists>err. fetch_tracks (Inr r) = Inl err) \<longleftrightarrow>
        (400 \<le> status r \<or> body r = None
         \<or> (\<exists>data. body r = Some data \<and> (embeds_error data \<or> \<not> has_top_tracks data))))
   \<and> (fetch_tracks (Inr r) = Inl err
      \<longrightarrow> (non_success r \<or> malformed r \<or> error_response (Inr r))
          \<and> (err = ClientResponseError (status r) \<or> err = JSONError
               \<or> (\<exists>m. err = APIError m) \<or> lookup_error err))
   \<and> (400 \<le> status r \<longrightarrow> fetch_tracks (Inr r) = Inl (ClientResponseError (status r)))
   \<and> (status r < 400 \<and> body r = Some (JObj kvs) \<and> ''error'' \<in> set (map fst kvs)
        \<and> map_of kvs ''message'' = Some m
      \<longrightarrow> fetch_tracks (Inr r) = Inl (APIError m)
          \<and> (\<forall>s. m = JStr s
                \<longrightarrow> error_text (APIError m) = Some (''Error while fetching top tracks: '' @ s)))"
proof (intro conjI impI)
  show "fetch_tracks (Inl e) = Inl e" by (simp add: fetch_tracks_def)
next
  show "(\<exists>err. fetch_tracks (Inr r) = Inl err) \<longleftrightarrow>
        (400 \<le> status r \<or> body r = None
         \<or> (\<exists>data. body r = Some data \<and> (embeds_error data \<or> \<not> has_top_tracks data)))"
    by (rule fetch_tracks_fails)
next
  assume "fetch_tracks (Inr r) = Inl err"
  then show "non_success r \<or> malformed r \<or> error_response (Inr r)"
    by (rule fetch_tracks_only_when)
next
  assume "fetch_tracks (Inr r) = Inl err"
  then show "err = ClientResponseError (status r) \<or> err = JSONError
               \<or> (\<exists>m. err = APIError m) \<or> lookup_error err"
    by (rule fetch_tracks_kinds)
next
  assume "400 \<le> status r"
  then show "fetch_tracks (Inr r) = Inl (ClientResponseError (status r))"
    by (simp add: fetch_tracks_def)
next
  assume a: "status r < 400 \<and> body r = Some (JObj kvs) \<and> ''error'' \<in> set (map fst kvs)
        \<and> map_of kvs ''message'' = Some m"
  then show "fetch_tracks (Inr r) = Inl (APIError m)"
    using fetch_tracks_api_error[of r kvs m] by simp
next
  show "\<forall>s. m = JStr s
          \<longrightarrow> error_text (APIError m) = Some (''Error while fetching top tracks: '' @ s)"
    by simp
qed

theorem fetch_tracks_fails_iff_witness:
  "status not_found < 400
   \<and> body not_found = Some (JObj [(''error'', JNum 6), (''message'', JStr ''User not found'')])
   \<and> fetch_tracks (Inr not_found) = Inl (APIError (JStr ''User not found''))
   \<and> error_text (APIError (JStr ''User not found''))
       = Some ''Error while fetching top tracks: User not found''
   \<and> (non_success not_found \<or> malformed not_found \<or> error_response (Inr not_found))
   \<and> fetch_tracks (Inr (forbidden ''Invalid API key'')) = Inl (ClientResponseError 403)"
proof -
  let ?kvs = "[(''error'', JNum 6), (''message'', JStr ''User not found'')]"
  let ?m = "JStr ''User not found''"
  have h: "status not_found < 400 \<and> body not_found = Some (JObj ?kvs)
        \<and> ''error'' \<in> set (map fst ?kvs) \<and> map_of ?kvs ''message'' = Some ?m"
    by (simp add: not_found_def)
  note t = fetch_tracks_fails_iff[of ClientConnectionError not_found "APIError ?m" ?kvs ?m]
  from t h have f: "fetch_tracks (Inr not_found) = Inl (APIError ?m)"
    and x: "error_text (APIError ?m) = Some (''Error while fetching top tracks: '' @ ''User not found'')"
    by blast+
  from t f have w: "non_success not_found \<or> malformed not_found \<or> error_response (Inr not_found)"
    by blast
  have h4: "400 \<le> status (forbidden ''Invalid API key'')" by (simp add: forbidden_def)
  from fetch_tracks_fails_iff[of ClientConnectionError "forbidden ''Invalid API key''"
      JSONError "[]" JNull] h4
  have g: "fetch_tracks (Inr (forbidden ''Invalid API key'')) = Inl (ClientResponseError 403)"
    by (simp add: forbidden_def)
  from h f x w g show ?thesis by simp
qed

text \<open>
  Where the fetch does otherwise. An error payload that comes with status 403 raises
  the same error of the status whatever its message: \<^verbatim>\<open>raise_for_status()\<close> runs before
  the body is read, and the message of the service is not in the raised error. A track
  list with an entry that is no track after an unseen track is a malformed response with
  a success status, and the fetch succeeds and \<open>get_track\<close> returns the track. A status
  of 300 with a well-formed payload is no success, and the fetch succeeds. A request
  that raises fails the fetch with no response at all.
\<close>

theorem fetch_fails_exactly_when_counterexample:
  "(error_response (Inr (forbidden ''Invalid API key''))
      \<and> fetch_tracks (Inr (forbidden ''Invalid API key'')) = Inl (ClientResponseError 403)
      \<and> fetch_tracks (Inr (forbidden ''Service Offline'')) = Inl (ClientResponseError 403))
   \<and> (malformed broken_list \<and> \<not> non_success broken_list
      \<and> \<not> error_response (Inr broken_list)
      \<and> fetch_tracks (Inr broken_list) = Inr (JArr [track_json ''Y'' ''C'', JNum 42])
      \<and> get_track (\<lambda>c p. Inr broken_list) ''2024-05-02'' db_seen 1 ann
          = (Inr (Some \<lparr>artist = JStr ''Y'', name = JStr ''C''\<rparr>),
             db_seen\<lparr>tracks := tracks db_seen
               @ [\<lparr>user_id = 1, date = ''2024-05-02'', track_artist = ''Y'',
                    track_name = ''C''\<rparr>]\<rparr>))
   \<and> (non_success multiple_choices \<and> \<not> malformed multiple_choices
      \<and> \<not> error_response (Inr multiple_choices)
      \<and> fetch_tracks (Inr multiple_choices) = Inr (JArr [track_json ''Y'' ''C'']))
   \<and> fetch_tracks (Inl ClientConnectionError) = Inl ClientConnectionError"
proof (intro conjI)
  show "error_response (Inr (forbidden ''Invalid API key''))"
    by (simp add: forbidden_def error_response_def embeds_error_def)
  show "fetch_tracks (Inr (forbidden ''Invalid API key'')) = Inl (ClientResponseError 403)"
    by (simp add: forbidden_def fetch_tracks_def)
  show "fetch_tracks (Inr (forbidden ''Service Offline'')) = Inl (ClientResponseError 403)"
    by (simp add: forbidden_def fetch_tracks_def)
  show "malformed broken_list"
    by (simp add: broken_list_def malformed_def well_formed_def track_object_def track_json_def)
  show "\<not> non_success broken_list"
    by (simp add: broken_list_def non_success_def)
  show "\<not> error_response (Inr broken_list)"
    by (simp add: broken_list_def error_response_def embeds_error_def)
  show "fetch_tracks (Inr broken_list) = Inr (JArr [track_json ''Y'' ''C'', JNum 42])"
    by (simp add: broken_list_def fetch_tracks_def)
  show "get_track (\<lambda>c p. Inr broken_list) ''2024-05-02'' db_seen 1 ann
          = (Inr (Some \<lparr>artist = JStr ''Y'', name = JStr ''C''\<rparr>),
             db_seen\<lparr>tracks := tracks db_seen
               @ [\<lparr>user_id = 1, date = ''2024-05-02'', track_artist = ''Y'',
                    track_name = ''C''\<rparr>]\<rparr>)"
    by (simp add: get_track_def TIME_RANGES_def broken_list_def fetch_tracks_def track_json_def
        track_fields_def track_seen_def insert_track_def db_seen_def fits_int64_def)
  show "non_success multiple_choices"
    by (simp add: multiple_choices_def non_success_def)
  show "\<not> malformed multiple_choices"
    by (simp add: multiple_choices_def malformed_def well_formed_def track_object_def
        track_json_def)
  show "\<not> error_response (Inr multiple_choices)"
    by (simp add: multiple_choices_def error_response_def embeds_error_def)
  show "fetch_tracks (Inr multiple_choices) = Inr (JArr [track_json ''Y'' ''C''])"
    by (simp add: multiple_choices_def fetch_tracks_def)
  show "fetch_tracks (Inl ClientConnectionError) = Inl ClientConnectionError"
    by (simp add: fetch_tracks_def)
qed

subsection \<open>C6: failures during a sweep\<close>

text \<open>
  C6, at an input where the code does otherwise. The lookup of the user and the webhook
  are called outside the \<^verbatim>\<open>try\<close>: when \<open>fetch_user\<close> raises for the first of two
  users, the exception leaves \<open>daily_task\<close> and the second user, for whom a sweep over
  that user alone finds a track and sends it, gets neither a row nor a message.
\<close>

theorem sweep_aborts_when_lookup_raises:
  "daily_task env_lookup_raises ''2024-05-02'' db2
     = (\<lparr>s_db = \<lparr>users = [ann_row, bob_row], tracks = [row_XA 1]\<rparr>, sent = [], logged = []\<rparr>,
        Some DiscordError)
   \<and> daily_task env_lookup_raises ''2024-05-02'' \<lparr>users = [bob_row], tracks = []\<rparr>
     = (\<lparr>s_db = \<lparr>users = [bob_row], tracks = [row_XA 2]\<rparr>, sent = [(2, bob_user, track_XA)],
         logged = []\<rparr>, None)"
  by (simp add: daily_task_def db2_def env_lookup_raises_def ann_row_def bob_row_def
      delivered_today_def get_track_XA fits_int64_small)

subsection \<open>C7: nothing new\<close>



subsection \<open>C9: a track recorded and never sent\<close>



subsection \<open>C10: the ledger only grows\<close>

text \<open>
  C10. The rows of \<open>tracks\<close> before a call of \<open>get_track\<close>, a submission of the
  registration modal, a sweep, or any sequence of sweeps and registrations are an
  initial segment of the rows after it: no row is removed or changed.
\<close>

theorem ledger_append_only:
  "prefix (tracks d) (tracks (snd (get_track svc today d u c)))
   \<and> tracks (on_submit d u un key) = tracks d
   \<and> prefix (tracks d) (tracks (s_db (fst (daily_task e today d))))
   \<and> prefix (tracks (s_db st)) (tracks (s_db (run evs st)))"
  by (simp add: get_track_prefix on_submit_tracks daily_task_prefix run_prefix)

end
